theory Spec2Isabelle
  imports Main
begin

unbundle bit_operations_syntax

section \<open>Python values used by minindn.py\<close>

text \<open>
  Exceptions that the modelled part of \<^verbatim>\<open>minindn.py\<close> can raise.  A failing computation
  is \<open>Inl (e, log)\<close>: the exception, and the lines written through \<^verbatim>\<open>error(...)\<close> before it
  was raised.
\<close>

datatype exc =
    NoSectionError string
  | SystemExit int
  | IndexError
  | AttributeError
  | ValueError
  | TypeError

type_synonym failure = "exc \<times> string list"

definition raise :: "exc \<Rightarrow> failure + 'a" where
  "raise e = Inl (e, [])"

subsection \<open>str.split with an explicit separator\<close>

text \<open>
  \<^verbatim>\<open>s.split(sep)\<close> for a one-character separator: the result is never empty,
  \<^verbatim>\<open>''.split(' ') == ['']\<close>, and adjacent separators give empty fields.
\<close>

fun split_str :: "char \<Rightarrow> string \<Rightarrow> string list" where
  "split_str sep [] = [[]]"
| "split_str sep (c # cs) =
     (let r = split_str sep cs
      in if c = sep then [] # r else (c # hd r) # tl r)"

text \<open>\<^verbatim>\<open>xs[1]\<close> raises IndexError on a list shorter than two.\<close>

definition index1 :: "'a list \<Rightarrow> failure + 'a" where
  "index1 xs = (if length xs < 2 then raise IndexError else Inr (xs ! 1))"

subsection \<open>int(str) and the format %i\<close>

text \<open>
  Python's \<^verbatim>\<open>int(s)\<close> on a string of bytes: surrounding ASCII whitespace is dropped, one
  sign is allowed, and the body is decimal digits with single underscores between digits.
  Anything else raises ValueError (\<open>None\<close> here).
\<close>

definition is_digit :: "char \<Rightarrow> bool" where
  "is_digit c \<longleftrightarrow> 48 \<le> (of_char c :: nat) \<and> (of_char c :: nat) \<le> 57"

definition digit_val :: "char \<Rightarrow> int" where
  "digit_val c = int (of_char c) - 48"

definition is_space :: "char \<Rightarrow> bool" where
  "is_space c \<longleftrightarrow> (let n = (of_char c :: nat) in (9 \<le> n \<and> n \<le> 13) \<or> (28 \<le> n \<and> n \<le> 32))"

definition py_strip :: "string \<Rightarrow> string" where
  "py_strip s = rev (dropWhile is_space (rev (dropWhile is_space s)))"

fun int_body :: "string \<Rightarrow> bool" where
  "int_body [] = False"
| "int_body [c] = is_digit c"
| "int_body (c # d # r) =
     (is_digit c \<and> (if d = CHR ''_'' then int_body r else int_body (d # r)))"

definition digits_value :: "string \<Rightarrow> int" where
  "digits_value s = foldl (\<lambda>a c. 10 * a + digit_val c) 0 (filter (\<lambda>c. c \<noteq> CHR ''_'') s)"

definition unsigned_int :: "string \<Rightarrow> int option" where
  "unsigned_int s = (if int_body s then Some (digits_value s) else None)"

definition py_int :: "string \<Rightarrow> int option" where
  "py_int s =
     (case py_strip s of
        [] \<Rightarrow> None
      | c # r \<Rightarrow>
          if c = CHR ''-'' then map_option uminus (unsigned_int r)
          else if c = CHR ''+'' then unsigned_int r
          else unsigned_int (c # r))"

fun dec_nat :: "nat \<Rightarrow> string" where
  "dec_nat n =
     (if n < 10 then [char_of (48 + n)]
      else dec_nat (n div 10) @ [char_of (48 + n mod 10)])"

declare dec_nat.simps [simp del]

definition fmt_i :: "int \<Rightarrow> string" where
  "fmt_i n = (if n < 0 then CHR ''-'' # dec_nat (nat (- n)) else dec_nat (nat n))"

section \<open>mininet.util: ipNum, ipStr, ipParse\<close>

text \<open>
  The three address helpers that \<^verbatim>\<open>ethernetPairConnectivity\<close> imports from the emulation
  library, on Python's unbounded integers:
  \<^verbatim>\<open>ipNum(w, x, y, z) = (w << 24) | (x << 16) | (y << 8) | z\<close>;
  \<^verbatim>\<open>ipStr(ip)\<close> prints the four octets \<^verbatim>\<open>(ip >> 24) & 0xff\<close>, ... with \<^verbatim>\<open>"%i.%i.%i.%i"\<close>;
  \<^verbatim>\<open>ipParse(ip)\<close> applies \<^verbatim>\<open>int\<close> to each field of \<^verbatim>\<open>ip.split('.')\<close>, pads a short list with
  zeros before its last field, and calls \<^verbatim>\<open>ipNum(*args)\<close>.
\<close>

definition ipNum :: "int \<Rightarrow> int \<Rightarrow> int \<Rightarrow> int \<Rightarrow> int" where
  "ipNum w x y z = push_bit 24 w OR push_bit 16 x OR push_bit 8 y OR z"

definition ipStr :: "int \<Rightarrow> string" where
  "ipStr ip =
     (let w = drop_bit 24 ip AND 255;
          x = drop_bit 16 ip AND 255;
          y = drop_bit 8 ip AND 255;
          z = ip AND 255
      in fmt_i w @ ''.'' @ fmt_i x @ ''.'' @ fmt_i y @ ''.'' @ fmt_i z)"

function ip_pad :: "int list \<Rightarrow> int list" where
  "ip_pad args =
     (if length args < 4
      then ip_pad (take (length args - 1) args @ 0 # drop (length args - 1) args)
      else args)"
  by pat_completeness auto
termination
  by (relation "measure (\<lambda>args. 4 - length args)") auto

declare ip_pad.simps [simp del]

fun all_ints :: "string list \<Rightarrow> int list option" where
  "all_ints [] = Some []"
| "all_ints (s # ss) =
     (case py_int s of
        None \<Rightarrow> None
      | Some n \<Rightarrow> (case all_ints ss of None \<Rightarrow> None | Some ns \<Rightarrow> Some (n # ns)))"

definition ipParse :: "string \<Rightarrow> failure + int" where
  "ipParse ip =
     (case all_ints (split_str CHR ''.'' ip) of
        None \<Rightarrow> raise ValueError
      | Some args \<Rightarrow>
          (case ip_pad args of
             [w, x, y, z] \<Rightarrow> Inr (ipNum w x y z)
           | _ \<Rightarrow> raise TypeError))"

section \<open>The emulated network as an object store\<close>

text \<open>
  Mininet nodes, interfaces and links are objects compared by identity
  (\<^verbatim>\<open>link.intf1 not in interfaces\<close>), so each is an address here and the attributes read by
  \<^verbatim>\<open>ethernetPairConnectivity\<close> are fields of the store: \<^verbatim>\<open>net.hosts\<close>, \<^verbatim>\<open>net.switches\<close>,
  \<^verbatim>\<open>host.intfList()\<close>, \<^verbatim>\<open>intf.link\<close>, \<^verbatim>\<open>intf.node\<close>, \<^verbatim>\<open>link.intf1\<close>, \<^verbatim>\<open>link.intf2\<close> and
  \<^verbatim>\<open>isinstance(node, Switch)\<close>.  Every interface that \<^verbatim>\<open>intfList()\<close> returns belongs to a link, as
  the interfaces that Mininet creates for the links of a topology do.
\<close>

type_synonym node = nat
type_synonym intf = nat
type_synonym link = nat

record mininet =
  hosts :: "node list"
  switches :: "node list"
  intfList :: "node \<Rightarrow> intf list"
  intf_link :: "intf \<Rightarrow> link"
  intf_node :: "intf \<Rightarrow> node"
  link_intf1 :: "link \<Rightarrow> intf"
  link_intf2 :: "link \<Rightarrow> intf"
  is_Switch :: "node \<Rightarrow> bool"

text \<open>One call \<^verbatim>\<open>node.setIP(address, intf=intf)\<close>.\<close>

record setIP =
  ip_node :: node
  ip_addr :: string
  ip_intf :: intf

section \<open>Minindn.ethernetPairConnectivity\<close>

record epc_state =
  ndnNetBase :: string
  interfaces :: "intf list"
  setIP_calls :: "setIP list"

definition epc_init :: epc_state where
  "epc_init = \<lparr>ndnNetBase = ''10.0.0.0'', interfaces = [], setIP_calls = []\<rparr>"

text \<open>The body of the inner loop, for one interface of one host.\<close>

definition visit_intf :: "mininet \<Rightarrow> intf \<Rightarrow> epc_state \<Rightarrow> failure + epc_state" where
  "visit_intf net i st =
     (let l = intf_link net i;
          i1 = link_intf1 net l;
          i2 = link_intf2 net l;
          node1 = intf_node net i1;
          node2 = intf_node net i2
      in if is_Switch net node1 \<or> is_Switch net node2 then Inr st
         else if i1 \<notin> set (interfaces st) \<and> i2 \<notin> set (interfaces st) then
           (case ipParse (ndnNetBase st) of
              Inl e \<Rightarrow> Inl e
            | Inr b \<Rightarrow>
                Inr \<lparr>ndnNetBase = ipStr (b + 4),
                     interfaces = interfaces st @ [i1, i2],
                     setIP_calls = setIP_calls st @
                       [\<lparr>ip_node = node1, ip_addr = ipStr (b + 1) @ ''/30'', ip_intf = i1\<rparr>,
                        \<lparr>ip_node = node2, ip_addr = ipStr (b + 2) @ ''/30'', ip_intf = i2\<rparr>]\<rparr>)
         else Inr st)"

fun walk_intfs :: "mininet \<Rightarrow> intf list \<Rightarrow> epc_state \<Rightarrow> failure + epc_state" where
  "walk_intfs net [] st = Inr st"
| "walk_intfs net (i # rest) st =
     (case visit_intf net i st of Inl e \<Rightarrow> Inl e | Inr st' \<Rightarrow> walk_intfs net rest st')"

fun walk_hosts :: "mininet \<Rightarrow> node list \<Rightarrow> epc_state \<Rightarrow> failure + epc_state" where
  "walk_hosts net [] st = Inr st"
| "walk_hosts net (host # rest) st =
     (case walk_intfs net (intfList net host) st of
        Inl e \<Rightarrow> Inl e
      | Inr st' \<Rightarrow> walk_hosts net rest st')"

text \<open>The routine returns nothing; its effect is the sequence of \<^verbatim>\<open>setIP\<close> calls.\<close>

definition ethernetPairConnectivity :: "mininet \<Rightarrow> failure + setIP list" where
  "ethernetPairConnectivity net =
     (case walk_hosts net (hosts net) epc_init of
        Inl e \<Rightarrow> Inl e
      | Inr st \<Rightarrow> Inr (setIP_calls st))"

section \<open>Minindn.processTopo\<close>

text \<open>
  The parser starts from what \<^verbatim>\<open>config.items(section)\<close> returns after \<^verbatim>\<open>config.read\<close>:
  for each section name either nothing (\<^verbatim>\<open>NoSectionError\<close>) or the list of (key, value)
  pairs, where a value is \<open>None\<close> for a key written without one (\<^verbatim>\<open>allow_no_value=True\<close>).
  The topology built is the sequence of \<^verbatim>\<open>addHost\<close>/\<^verbatim>\<open>addSwitch\<close>/\<^verbatim>\<open>addLink\<close> calls issued,
  each with the arguments \<^verbatim>\<open>processTopo\<close> passes; what the library's \<^verbatim>\<open>Topo\<close> does with them is
  outside the model.
  \<^verbatim>\<open>float\<close> is a parameter: the builtin, on a value, with \<open>None\<close> for ValueError.
\<close>

datatype 'f pyval = PyStr string | PyInt int | PyFloat 'f

type_synonym item = "string \<times> string option"
type_synonym config = "string \<Rightarrow> item list option"

datatype 'f topo_call =
    AddHost string "string \<rightharpoonup> string"
  | AddSwitch string
  | AddLink string string "string \<rightharpoonup> 'f pyval"

type_synonym 'f topo = "'f topo_call list"

definition entry_name :: "string \<Rightarrow> string" where
  "entry_name key = hd (split_str CHR '':'' key)"

definition py_format_opt :: "string option \<Rightarrow> string" where
  "py_format_opt v = (case v of None \<Rightarrow> ''None'' | Some s \<Rightarrow> s)"

definition duplicate_message :: "string option \<Rightarrow> string" where
  "duplicate_message v =
     ''FATAL: Duplicate Coordinate, '' @ [CHR 0x27] @ py_format_opt v @ [CHR 0x27]
       @ '' used by multiple nodes'' @ [CHR 0x0A]"

fun node_params :: "string list \<Rightarrow> (string \<rightharpoonup> string) \<Rightarrow> failure + (string \<rightharpoonup> string)" where
  "node_params [] params = Inr params"
| "node_params (param # rest) params =
     (if param = ''_'' then node_params rest params
      else (case index1 (split_str CHR ''='' param) of
              Inl e \<Rightarrow> Inl e
            | Inr v \<Rightarrow> node_params rest (params(hd (split_str CHR ''='' param) \<mapsto> v))))"

fun process_nodes :: "item list \<Rightarrow> string option list \<Rightarrow> 'f topo \<Rightarrow> failure + 'f topo" where
  "process_nodes [] coordinates topo = Inr topo"
| "process_nodes (item # rest) coordinates topo =
     (let name = entry_name (fst item)
      in if snd item \<in> set coordinates \<and> snd item \<noteq> Some ''_''
         then Inl (SystemExit 1, [duplicate_message (snd item)])
         else (case snd item of
                 None \<Rightarrow> raise AttributeError
               | Some v \<Rightarrow>
                   (case node_params (split_str CHR '' '' v) Map.empty of
                      Inl e \<Rightarrow> Inl e
                    | Inr params \<Rightarrow>
                        process_nodes rest (coordinates @ [snd item])
                          (topo @ [AddHost name params]))))"

fun process_switches :: "item list \<Rightarrow> 'f topo \<Rightarrow> 'f topo" where
  "process_switches [] topo = topo"
| "process_switches (item # rest) topo =
     process_switches rest (topo @ [AddSwitch (entry_name (fst item))])"

definition coerce_int :: "string \<Rightarrow> 'f pyval \<Rightarrow> failure + 'f pyval" where
  "coerce_int key v =
     (if key \<in> set [''bw'', ''jitter'', ''max_queue_size'']
      then (case v of
              PyStr s \<Rightarrow> (case py_int s of None \<Rightarrow> raise ValueError | Some n \<Rightarrow> Inr (PyInt n))
            | _ \<Rightarrow> Inr v)
      else Inr v)"

definition coerce_float :: "('f pyval \<Rightarrow> 'f option) \<Rightarrow> string \<Rightarrow> 'f pyval \<Rightarrow> failure + 'f pyval" where
  "coerce_float float key v =
     (if key = ''loss''
      then (case float v of None \<Rightarrow> raise ValueError | Some x \<Rightarrow> Inr (PyFloat x))
      else Inr v)"

fun link_params ::
  "('f pyval \<Rightarrow> 'f option) \<Rightarrow> string list \<Rightarrow> (string \<rightharpoonup> 'f pyval) \<Rightarrow> failure + (string \<rightharpoonup> 'f pyval)"
where
  "link_params float [] params = Inr params"
| "link_params float (param # rest) params =
     (let key = hd (split_str CHR ''='' param)
      in case index1 (split_str CHR ''='' param) of
           Inl e \<Rightarrow> Inl e
         | Inr raw \<Rightarrow>
             (case coerce_int key (PyStr raw) of
                Inl e \<Rightarrow> Inl e
              | Inr v1 \<Rightarrow>
                  (case coerce_float float key v1 of
                     Inl e \<Rightarrow> Inl e
                   | Inr v2 \<Rightarrow> link_params float rest (params(key \<mapsto> v2)))))"

fun process_links :: "('f pyval \<Rightarrow> 'f option) \<Rightarrow> item list \<Rightarrow> 'f topo \<Rightarrow> failure + 'f topo" where
  "process_links float [] topo = Inr topo"
| "process_links float (item # rest) topo =
     (let link = split_str CHR '':'' (fst item)
      in case snd item of
           None \<Rightarrow> raise AttributeError
         | Some v \<Rightarrow>
             (case link_params float (split_str CHR '' '' v) Map.empty of
                Inl e \<Rightarrow> Inl e
              | Inr params \<Rightarrow>
                  (case index1 link of
                     Inl e \<Rightarrow> Inl e
                   | Inr link1 \<Rightarrow>
                       process_links float rest (topo @ [AddLink (hd link) link1 params]))))"

definition processTopo :: "('f pyval \<Rightarrow> 'f option) \<Rightarrow> config \<Rightarrow> failure + 'f topo" where
  "processTopo float config =
     (case config ''nodes'' of
        None \<Rightarrow> raise (NoSectionError ''nodes'')
      | Some items \<Rightarrow>
          (case process_nodes items [] [] of
             Inl e \<Rightarrow> Inl e
           | Inr topo \<Rightarrow>
               (let topo' = (case config ''switches'' of
                               None \<Rightarrow> topo
                             | Some sw \<Rightarrow> process_switches sw topo)
                in case config ''links'' of
                     None \<Rightarrow> raise (NoSectionError ''links'')
                   | Some ls \<Rightarrow> process_links float ls topo')))"

section \<open>Minindn.__init__\<close>

text \<open>
  The constructor, from the parsed command line on.  The library and the file system are
  parameters: \<open>float\<close> (the builtin), \<open>read_config\<close> (\<^verbatim>\<open>config.read\<close> followed by
  \<^verbatim>\<open>config.items\<close>), \<open>Mininet\<close> (the network the emulation library builds from a topology)
  and \<open>abspath\<close>.  \<^verbatim>\<open>initParams\<close> and the \<^verbatim>\<open>ndnsec-get-default\<close> probe act on host shells and a
  subprocess only and leave the fields below alone.  \<open>init_setIP\<close> records what the
  constructor did about addresses: \<open>None\<close> when \<^verbatim>\<open>ethernetPairConnectivity\<close> was not invoked,
  otherwise the \<^verbatim>\<open>setIP\<close> calls it made.
\<close>

record args =
  args_topoFile :: string
  args_workDir :: string
  args_resultDir :: "string option"

type_synonym 'w action = "'w \<Rightarrow> failure + 'w"

record ('f, 'w) minindn =
  workDir :: string
  resultDir :: "string option"
  self_topoFile :: string
  self_topo :: "'f topo option"
  self_net :: mininet
  cleanups :: "'w action list"
  init_setIP :: "setIP list option"

definition init ::
  "('f pyval \<Rightarrow> 'f option) \<Rightarrow> (string \<Rightarrow> config) \<Rightarrow> ('f topo option \<Rightarrow> mininet) \<Rightarrow> (string \<Rightarrow> string)
     \<Rightarrow> args \<Rightarrow> 'f topo option \<Rightarrow> string option \<Rightarrow> bool \<Rightarrow> failure + ('f, 'w) minindn"
where
  "init float read_config Mininet abspath a topo_arg topoFile_arg noTopo =
     (let file = (case topoFile_arg of
                    None \<Rightarrow> args_topoFile a
                  | Some f \<Rightarrow> if f = [] then args_topoFile a else f)
      in case (case topo_arg of
                 None \<Rightarrow>
                   if \<not> noTopo
                   then (case processTopo float (read_config file) of
                           Inl (e, log) \<Rightarrow>
                             (case e of
                                NoSectionError sec \<Rightarrow> Inl (SystemExit 1, log)
                              | _ \<Rightarrow> Inl (e, log))
                         | Inr t \<Rightarrow> Inr (Some t))
                   else Inr None
               | Some t \<Rightarrow> Inr (Some t)) of
           Inl e \<Rightarrow> Inl e
         | Inr the_topo \<Rightarrow>
             (let the_net = (if \<not> noTopo then Mininet the_topo else Mininet None)
              in case (if switches the_net = []
                       then (case ethernetPairConnectivity the_net of
                               Inl e \<Rightarrow> Inl e
                             | Inr calls \<Rightarrow> Inr (Some calls))
                       else Inr None) of
                   Inl e \<Rightarrow> Inl e
                 | Inr ips \<Rightarrow>
                     Inr \<lparr>workDir = abspath (args_workDir a),
                          resultDir = args_resultDir a,
                          self_topoFile = file,
                          self_topo = the_topo,
                          self_net = the_net,
                          cleanups = [],
                          init_setIP = ips\<rparr>))"

section \<open>Minindn.stop\<close>

text \<open>
  \<^verbatim>\<open>stop\<close> acts on the world outside the program (\<open>'w\<close>): the registered callbacks, the
  emulation library's \<^verbatim>\<open>net.stop()\<close>, \<^verbatim>\<open>os.system\<close>, \<^verbatim>\<open>glob.glob\<close> and \<^verbatim>\<open>shutil.move\<close>.  The
  callbacks, \<^verbatim>\<open>net.stop\<close> and \<^verbatim>\<open>shutil.move\<close> may raise.  The result is the trace of what was
  invoked, in order, and either the exception that ended \<^verbatim>\<open>stop\<close> or the final world.  A
  callback is named in the trace by its position in \<^verbatim>\<open>self.cleanups\<close>.
\<close>

datatype event =
    Cleanup nat
  | NetStop
  | Info string
  | System string
  | Move string string

record 'w os_env =
  net_stop :: "'w action"
  os_system :: "string \<Rightarrow> 'w \<Rightarrow> 'w"
  glob_glob :: "string \<Rightarrow> 'w \<Rightarrow> string list"
  shutil_move :: "string \<Rightarrow> string \<Rightarrow> 'w action"

fun run_cleanups :: "'w action list \<Rightarrow> nat \<Rightarrow> event list \<Rightarrow> 'w \<Rightarrow> event list \<times> (failure + 'w)" where
  "run_cleanups [] k tr w = (tr, Inr w)"
| "run_cleanups (cleanup # rest) k tr w =
     (case cleanup w of
        Inl e \<Rightarrow> (tr @ [Cleanup k], Inl e)
      | Inr w' \<Rightarrow> run_cleanups rest (Suc k) (tr @ [Cleanup k]) w')"

fun move_files :: "'w os_env \<Rightarrow> string list \<Rightarrow> string \<Rightarrow> event list \<Rightarrow> 'w \<Rightarrow> event list \<times> (failure + 'w)" where
  "move_files os [] dir tr w = (tr, Inr w)"
| "move_files os (file # rest) dir tr w =
     (case shutil_move os file dir w of
        Inl e \<Rightarrow> (tr @ [Move file dir], Inl e)
      | Inr w' \<Rightarrow> move_files os rest dir (tr @ [Move file dir]) w')"

definition moving_message :: "string \<Rightarrow> string" where
  "moving_message dir = ''Moving results to '' @ [CHR 0x27] @ dir @ [CHR 0x27] @ [CHR 0x0A]"

definition stop :: "'w os_env \<Rightarrow> ('f, 'w) minindn \<Rightarrow> 'w \<Rightarrow> event list \<times> (failure + 'w)" where
  "stop os self w =
     (case run_cleanups (cleanups self) 0 [] w of
        (tr, Inl e) \<Rightarrow> (tr, Inl e)
      | (tr, Inr w1) \<Rightarrow>
          (case net_stop os w1 of
             Inl e \<Rightarrow> (tr @ [NetStop], Inl e)
           | Inr w2 \<Rightarrow>
               (case resultDir self of
                  None \<Rightarrow> (tr @ [NetStop], Inr w2)
                | Some dir \<Rightarrow>
                    (let w3 = os_system os (''mkdir -p '' @ dir) w2;
                         files = glob_glob os (workDir self @ ''/*'') w3
                     in move_files os files dir
                          (tr @ [NetStop, Info (moving_message dir), System (''mkdir -p '' @ dir)])
                          w3))))"

section \<open>The allocation computed by the interface walk\<close>

text \<open>
  A functional description of \<^verbatim>\<open>ethernetPairConnectivity\<close>, written from what the routine is
  meant to do: the links that receive a subnet, in order, and the calls made for them.  It is
  proved equal to the routine below.
\<close>

definition link_ends :: "mininet \<Rightarrow> link \<Rightarrow> intf list" where
  "link_ends net l = [link_intf1 net l, link_intf2 net l]"

definition point_to_point :: "mininet \<Rightarrow> link \<Rightarrow> bool" where
  "point_to_point net l \<longleftrightarrow>
     \<not> is_Switch net (intf_node net (link_intf1 net l)) \<and>
     \<not> is_Switch net (intf_node net (link_intf2 net l))"

definition alloc_step :: "mininet \<Rightarrow> link list \<Rightarrow> intf \<Rightarrow> link list" where
  "alloc_step net ls i =
     (let l = intf_link net i
      in if point_to_point net l
            \<and> link_intf1 net l \<notin> set (concat (map (link_ends net) ls))
            \<and> link_intf2 net l \<notin> set (concat (map (link_ends net) ls))
         then ls @ [l] else ls)"

definition walk_order :: "mininet \<Rightarrow> intf list" where
  "walk_order net = concat (map (intfList net) (hosts net))"

definition allocated_links :: "mininet \<Rightarrow> link list" where
  "allocated_links net = foldl (alloc_step net) [] (walk_order net)"

definition pair_calls :: "mininet \<Rightarrow> nat \<Rightarrow> link \<Rightarrow> setIP list" where
  "pair_calls net n l =
     [\<lparr>ip_node = intf_node net (link_intf1 net l),
       ip_addr = ipStr (ipNum 10 0 0 0 + 4 * int n + 1) @ ''/30'',
       ip_intf = link_intf1 net l\<rparr>,
      \<lparr>ip_node = intf_node net (link_intf2 net l),
       ip_addr = ipStr (ipNum 10 0 0 0 + 4 * int n + 2) @ ''/30'',
       ip_intf = link_intf2 net l\<rparr>]"

definition calls_of :: "mininet \<Rightarrow> link list \<Rightarrow> setIP list" where
  "calls_of net ls = concat (map (\<lambda>n. pair_calls net n (ls ! n)) [0..<length ls])"

definition epc_of :: "mininet \<Rightarrow> link list \<Rightarrow> epc_state" where
  "epc_of net ls =
     \<lparr>ndnNetBase = ipStr (ipNum 10 0 0 0 + 4 * int (length ls)),
      interfaces = concat (map (link_ends net) ls),
      setIP_calls = calls_of net ls\<rparr>"


definition assigned_addrs :: "failure + setIP list \<Rightarrow> string list" where
  "assigned_addrs r = (case r of Inl e \<Rightarrow> [] | Inr calls \<Rightarrow> map ip_addr calls)"

definition parallel_links :: "nat \<Rightarrow> mininet" where
  "parallel_links k =
     \<lparr>hosts = [0, 1], switches = [],
      intfList = (\<lambda>h. if h = 0 then map (\<lambda>j. 2 * j) [0..<k] else map (\<lambda>j. 2 * j + 1) [0..<k]),
      intf_link = (\<lambda>i. i div 2),
      intf_node = (\<lambda>i. i mod 2),
      link_intf1 = (\<lambda>l. 2 * l),
      link_intf2 = (\<lambda>l. 2 * l + 1),
      is_Switch = (\<lambda>n. False)\<rparr>"

section \<open>Well-formed link objects and example networks\<close>

text \<open>
  Mininet's \<^verbatim>\<open>Link\<close> constructor creates the two interfaces of a link itself and stores the
  link in each: both ends of a link point back to it and are different objects.
  \<open>link_objects_ok\<close> says so for the links met on the interface walk.
\<close>

definition link_objects_ok :: "mininet \<Rightarrow> bool" where
  "link_objects_ok net \<longleftrightarrow>
     (\<forall>i\<in>set (walk_order net).
        let l = intf_link net i
        in intf_link net (link_intf1 net l) = l \<and> intf_link net (link_intf2 net l) = l
           \<and> link_intf1 net l \<noteq> link_intf2 net l)"

definition own_ends :: "mininet \<Rightarrow> link \<Rightarrow> bool" where
  "own_ends net l \<longleftrightarrow>
     intf_link net (link_intf1 net l) = l \<and> intf_link net (link_intf2 net l) = l
     \<and> link_intf1 net l \<noteq> link_intf2 net l"

definition whole_float :: "int pyval \<Rightarrow> int option" where
  "whole_float v = (case v of PyStr s \<Rightarrow> py_int s | PyInt n \<Rightarrow> Some n | PyFloat x \<Rightarrow> Some x)"

definition switched_net :: mininet where
  "switched_net =
     \<lparr>hosts = [0, 1], switches = [2],
      intfList = (\<lambda>h. if h = 0 then [0, 4] else if h = 1 then [2, 5] else [1, 3]),
      intf_link = (\<lambda>i. i div 2),
      intf_node = (\<lambda>i. if i = 0 \<or> i = 4 then 0 else if i = 2 \<or> i = 5 then 1 else 2),
      link_intf1 = (\<lambda>l. 2 * l),
      link_intf2 = (\<lambda>l. 2 * l + 1),
      is_Switch = (\<lambda>n. n = 2)\<rparr>"

definition example_args :: args where
  "example_args = \<lparr>args_topoFile = ''default-topology.conf'', args_workDir = ''/tmp/minindn'',
                    args_resultDir = None\<rparr>"

section \<open>What the parser is meant to build\<close>

text \<open>
  The specification side of \<^verbatim>\<open>processTopo\<close>, in the words of its description: a parameter
  token is \<open>key=value\<close>; the values of \<open>bw\<close>, \<open>jitter\<close> and \<open>max_queue_size\<close> are
  integers, that of \<open>loss\<close> is a float, every other value stays a string; a later token
  overrides an earlier one with the same key; each entry of a section gives one call.
  The \<open>_ok\<close> predicates say which entries the parser can digest.
\<close>

definition param_key :: "string \<Rightarrow> string" where
  "param_key p = hd (split_str CHR ''='' p)"

definition param_val :: "string \<Rightarrow> string" where
  "param_val p = split_str CHR ''='' p ! 1"

definition has_value :: "string \<Rightarrow> bool" where
  "has_value p \<longleftrightarrow> 2 \<le> length (split_str CHR ''='' p)"

definition node_token_ok :: "string \<Rightarrow> bool" where
  "node_token_ok p \<longleftrightarrow> p = ''_'' \<or> has_value p"

definition node_dict :: "string list \<Rightarrow> (string \<rightharpoonup> string)" where
  "node_dict toks =
     map_of (rev (map (\<lambda>p. (param_key p, param_val p)) (filter (\<lambda>p. p \<noteq> ''_'') toks)))"

definition typed_value :: "('f pyval \<Rightarrow> 'f option) \<Rightarrow> string \<Rightarrow> string \<Rightarrow> 'f pyval" where
  "typed_value float key raw =
     (if key \<in> {''bw'', ''jitter'', ''max_queue_size''} then PyInt (the (py_int raw))
      else if key = ''loss'' then PyFloat (the (float (PyStr raw)))
      else PyStr raw)"

definition link_token_ok :: "('f pyval \<Rightarrow> 'f option) \<Rightarrow> string \<Rightarrow> bool" where
  "link_token_ok float p \<longleftrightarrow>
     has_value p
     \<and> (param_key p \<in> {''bw'', ''jitter'', ''max_queue_size''} \<longrightarrow> py_int (param_val p) \<noteq> None)
     \<and> (param_key p = ''loss'' \<longrightarrow> float (PyStr (param_val p)) \<noteq> None)"

definition link_dict :: "('f pyval \<Rightarrow> 'f option) \<Rightarrow> string list \<Rightarrow> (string \<rightharpoonup> 'f pyval)" where
  "link_dict float toks =
     map_of (rev (map (\<lambda>p. (param_key p, typed_value float (param_key p) (param_val p))) toks))"

definition node_item_ok :: "item \<Rightarrow> bool" where
  "node_item_ok it \<longleftrightarrow>
     (case snd it of None \<Rightarrow> False | Some v \<Rightarrow> \<forall>p\<in>set (split_str CHR '' '' v). node_token_ok p)"

definition coordinates_of :: "item list \<Rightarrow> string option list" where
  "coordinates_of items = filter (\<lambda>v. v \<noteq> Some ''_'') (map snd items)"

definition nodes_ok :: "item list \<Rightarrow> bool" where
  "nodes_ok items \<longleftrightarrow> (\<forall>it\<in>set items. node_item_ok it) \<and> distinct (coordinates_of items)"

definition host_call :: "item \<Rightarrow> 'f topo_call" where
  "host_call it = AddHost (entry_name (fst it)) (node_dict (split_str CHR '' '' (the (snd it))))"

definition switch_call :: "item \<Rightarrow> 'f topo_call" where
  "switch_call it = AddSwitch (entry_name (fst it))"

definition link_item_ok :: "('f pyval \<Rightarrow> 'f option) \<Rightarrow> item \<Rightarrow> bool" where
  "link_item_ok float it \<longleftrightarrow>
     (case snd it of None \<Rightarrow> False
      | Some v \<Rightarrow> \<forall>p\<in>set (split_str CHR '' '' v). link_token_ok float p)
     \<and> 2 \<le> length (split_str CHR '':'' (fst it))"

definition link_call :: "('f pyval \<Rightarrow> 'f option) \<Rightarrow> item \<Rightarrow> 'f topo_call" where
  "link_call float it =
     AddLink (hd (split_str CHR '':'' (fst it))) (split_str CHR '':'' (fst it) ! 1)
       (link_dict float (split_str CHR '' '' (the (snd it))))"

definition switch_items :: "config \<Rightarrow> item list" where
  "switch_items config = (case config ''switches'' of None \<Rightarrow> [] | Some sw \<Rightarrow> sw)"

section \<open>Example topology files\<close>

definition example_config :: config where
  "example_config =
     (\<lambda>s. if s = ''nodes'' then Some [(''a:'', Some ''_''), (''b:'', Some ''radius=1 angle=2'')]
          else if s = ''switches'' then Some [(''s1:'', Some ''_'')]
          else if s = ''links'' then Some [(''a:b'', Some ''delay=10ms bw=10 loss=2'')]
          else None)"

definition no_switch_config :: config where
  "no_switch_config =
     (\<lambda>s. if s = ''nodes'' then Some [(''a:'', Some ''_''), (''b:'', Some ''radius=1 angle=2'')]
          else if s = ''links'' then Some [(''a:b'', Some ''delay=10ms bw=10 loss=2'')]
          else None)"

definition nodes_only_config :: config where
  "nodes_only_config =
     (\<lambda>s. if s = ''nodes'' then Some [(''a:'', Some ''_''), (''b:'', Some ''radius=1 angle=2'')]
          else None)"

definition empty_config :: config where
  "empty_config = (\<lambda>s. None)"

definition shared_underscore :: config where
  "shared_underscore =
     (\<lambda>s. if s = ''nodes'' then Some [(''a:'', Some ''_''), (''b:'', Some ''_'')]
          else if s = ''links'' then Some []
          else None)"

definition duplicate_config :: config where
  "duplicate_config =
     (\<lambda>s. if s = ''nodes''
          then Some [(''a:'', Some ''radius=1 angle=2''), (''b:'', Some ''radius=1 angle=2'')]
          else if s = ''links'' then Some []
          else None)"

section \<open>Describing a run of stop\<close>

text \<open>
  \<open>returns\<close>: the action never raises.  \<open>run_all\<close>: the world after the actions have run
  in order, for actions that return.  \<open>file_event\<close> and \<open>lifecycle_event\<close> sort the
  events of a trace.
\<close>

definition run_all :: "'w action list \<Rightarrow> 'w \<Rightarrow> 'w" where
  "run_all actions w = foldl (\<lambda>w action. projr (action w)) w actions"

definition returns :: "'w action \<Rightarrow> bool" where
  "returns action \<longleftrightarrow> (\<forall>w. \<exists>w'. action w = Inr w')"

fun file_event :: "event \<Rightarrow> bool" where
  "file_event (System cmd) = True"
| "file_event (Move file dir) = True"
| "file_event e = False"

fun lifecycle_event :: "event \<Rightarrow> bool" where
  "lifecycle_event (Cleanup k) = True"
| "lifecycle_event NetStop = True"
| "lifecycle_event e = False"

section \<open>An example environment\<close>

text \<open>
  A world that is the list of what was done to it, two registered cleanups, and a working
  directory holding two files.
\<close>

definition log_world :: "string \<Rightarrow> string list action" where
  "log_world line w = Inr (w @ [line])"

definition example_os :: "string list os_env" where
  "example_os =
     \<lparr>net_stop = log_world ''net.stop'',
      os_system = (\<lambda>cmd w. w @ [cmd]),
      glob_glob = (\<lambda>pattern w. [''/tmp/minindn/a'', ''/tmp/minindn/b'']),
      shutil_move = (\<lambda>file dir. log_world (''move '' @ file @ '' '' @ dir))\<rparr>"

definition example_self :: "string option \<Rightarrow> (int, string list) minindn" where
  "example_self dir =
     \<lparr>workDir = ''/tmp/minindn'', resultDir = dir, self_topoFile = ''default-topology.conf'',
      self_topo = None, self_net = parallel_links 1,
      cleanups = [log_world ''nfd cleanup'', log_world ''nlsr cleanup''],
      init_setIP = None\<rparr>"

section \<open>Strings and addresses\<close>

lemma split_str_nonempty: "split_str sep s \<noteq> []"
  by (induction s) (auto simp: Let_def)

lemma split_str_no_sep: "sep \<notin> set a \<Longrightarrow> split_str sep a = [a]"
  by (induction a) (auto simp: Let_def)

lemma split_str_field: "sep \<notin> set a \<Longrightarrow> split_str sep (a @ sep # r) = a # split_str sep r"
  by (induction a) (auto simp: Let_def)

lemma is_digit_char_of: "(d::nat) < 10 \<Longrightarrow> is_digit (char_of (48 + d))"
  by (simp add: is_digit_def)

lemma digit_val_char_of: "(d::nat) < 10 \<Longrightarrow> digit_val (char_of (48 + d)) = int d"
  by (simp add: digit_val_def)

lemma dec_nat_digits: "c \<in> set (dec_nat n) \<Longrightarrow> is_digit c"
proof (induction n arbitrary: c rule: dec_nat.induct)
  case (1 n)
  show ?case
  proof (cases "n < 10")
    case True
    with "1.prems" show ?thesis by (simp add: dec_nat.simps [of n] is_digit_char_of)
  next
    case False
    with "1.prems" "1.IH" show ?thesis
      by (auto simp: dec_nat.simps [of n] is_digit_char_of)
  qed
qed

lemma dec_nat_nonempty: "dec_nat n \<noteq> []"
  by (subst dec_nat.simps) simp

lemma digits_value_snoc:
  "c \<noteq> CHR ''_'' \<Longrightarrow> digits_value (s @ [c]) = 10 * digits_value s + digit_val c"
  by (simp add: digits_value_def)

lemma is_digit_not_underscore: "is_digit c \<Longrightarrow> c \<noteq> CHR ''_''"
  by (auto simp: is_digit_def)

lemma digits_value_dec_nat: "digits_value (dec_nat n) = int n"
proof (induction n rule: dec_nat.induct)
  case (1 n)
  show ?case
  proof (cases "n < 10")
    case True
    then show ?thesis
      by (simp add: dec_nat.simps [of n] digits_value_def digit_val_char_of is_digit_not_underscore is_digit_char_of)
  next
    case False
    have "char_of (48 + n mod 10) \<noteq> CHR ''_''"
      by (rule is_digit_not_underscore) (simp add: is_digit_char_of)
    moreover have "10 * int (n div 10) + int (n mod 10) = int n"
      by presburger
    ultimately show ?thesis using False "1.IH"
      by (simp add: dec_nat.simps [of n] digits_value_snoc digit_val_char_of)
  qed
qed

lemma int_body_digits: "s \<noteq> [] \<Longrightarrow> \<forall>c\<in>set s. is_digit c \<Longrightarrow> int_body s"
  by (induction s rule: int_body.induct) (auto simp: is_digit_not_underscore)

lemma is_digit_not_space: "is_digit c \<Longrightarrow> \<not> is_space c"
  by (auto simp: is_digit_def is_space_def Let_def)

lemma dropWhile_hd_id: "s \<noteq> [] \<Longrightarrow> \<not> P (hd s) \<Longrightarrow> dropWhile P s = s"
  by (cases s) auto

lemma py_strip_id: "s \<noteq> [] \<Longrightarrow> \<not> is_space (hd s) \<Longrightarrow> \<not> is_space (last s) \<Longrightarrow> py_strip s = s"
  by (simp add: py_strip_def dropWhile_hd_id hd_rev)

lemma py_int_dec_nat: "py_int (dec_nat n) = Some (int n)"
proof -
  let ?s = "dec_nat n"
  have ne: "?s \<noteq> []" by (rule dec_nat_nonempty)
  have dg: "\<forall>c\<in>set ?s. is_digit c" by (simp add: dec_nat_digits)
  then have "is_digit (hd ?s)" "is_digit (last ?s)" using ne by auto
  then have strip: "py_strip ?s = ?s"
    using ne by (simp add: py_strip_id is_digit_not_space)
  obtain c r where cr: "?s = c # r" using ne by (cases ?s) auto
  have "is_digit c" using dg cr by simp
  then have "c \<noteq> CHR ''-''" "c \<noteq> CHR ''+''" by (auto simp: is_digit_def)
  moreover have "unsigned_int ?s = Some (int n)"
    using ne dg by (simp add: unsigned_int_def int_body_digits digits_value_dec_nat)
  ultimately show ?thesis
    using strip cr by (simp add: py_int_def)
qed

lemma fmt_i_nonneg: "0 \<le> n \<Longrightarrow> fmt_i n = dec_nat (nat n)"
  by (simp add: fmt_i_def)

lemma dot_not_digit: "\<not> is_digit CHR ''.''" by (simp add: is_digit_def)

lemma dec_nat_no_dot: "CHR ''.'' \<notin> set (dec_nat n)"
  using dec_nat_digits dot_not_digit by blast

lemma ipParse_quad:
  "ipParse (dec_nat a @ ''.'' @ dec_nat b @ ''.'' @ dec_nat c @ ''.'' @ dec_nat d)
     = Inr (ipNum (int a) (int b) (int c) (int d))"
  by (simp add: ipParse_def split_str_field split_str_no_sep dec_nat_no_dot py_int_dec_nat ip_pad.simps)

lemma ipNum_octets:
  "ipNum (drop_bit 24 ip AND 255) (drop_bit 16 ip AND 255) (drop_bit 8 ip AND 255) (ip AND 255)
     = take_bit 32 ip"
proof -
  have m: "(255::int) = mask 8" by (simp add: mask_eq_exp_minus_1)
  show ?thesis
    unfolding ipNum_def m
  proof (rule bit_eqI)
    fix n
    show "bit (push_bit 24 (drop_bit 24 ip AND mask 8) OR push_bit 16 (drop_bit 16 ip AND mask 8)
            OR push_bit 8 (drop_bit 8 ip AND mask 8) OR (ip AND mask 8)) n = bit (take_bit 32 ip) n"
      by (cases "n < 8"; cases "n < 16"; cases "n < 24"; cases "n < 32") (auto simp: bit_simps)
  qed
qed

lemma and_255: "(a::int) AND 255 = a mod 256"
proof -
  have m: "(255::int) = mask 8" by (simp add: mask_eq_exp_minus_1)
  show ?thesis unfolding m by (simp add: take_bit_eq_mask [symmetric] take_bit_eq_mod)
qed

lemma ipStr_mod: "ipStr (ip mod 2 ^ 32) = ipStr ip"
proof -
  have m: "(255::int) = mask 8" by (simp add: mask_eq_exp_minus_1)
  have t: "ip mod 2 ^ 32 = take_bit 32 ip" by (simp add: take_bit_eq_mod)
  have "drop_bit 24 (take_bit 32 ip) AND mask 8 = drop_bit 24 ip AND mask 8"
       "drop_bit 16 (take_bit 32 ip) AND mask 8 = drop_bit 16 ip AND mask 8"
       "drop_bit 8 (take_bit 32 ip) AND mask 8 = drop_bit 8 ip AND mask 8"
       "take_bit 32 ip AND mask 8 = ip AND mask 8"
    by (rule bit_eqI; auto simp: bit_simps)+
  then show ?thesis unfolding t ipStr_def m by simp
qed

lemma ipParse_ipStr: "ipParse (ipStr ip) = Inr (ip mod 2 ^ 32)"
proof -
  define w x y z where "w = drop_bit 24 ip AND 255" and "x = drop_bit 16 ip AND 255"
    and "y = drop_bit 8 ip AND 255" and "z = ip AND 255"
  have nn: "0 \<le> w" "0 \<le> x" "0 \<le> y" "0 \<le> z"
    by (simp_all add: w_def x_def y_def z_def and_255)
  have "ipStr ip = dec_nat (nat w) @ ''.'' @ dec_nat (nat x) @ ''.'' @ dec_nat (nat y) @ ''.'' @ dec_nat (nat z)"
    using nn by (simp add: ipStr_def Let_def w_def [symmetric] x_def [symmetric] y_def [symmetric] z_def [symmetric] fmt_i_nonneg)
  then have "ipParse (ipStr ip) = Inr (ipNum w x y z)"
    using nn by (simp only: ipParse_quad) simp
  also have "ipNum w x y z = take_bit 32 ip"
    unfolding w_def x_def y_def z_def by (rule ipNum_octets)
  finally show ?thesis by (simp add: take_bit_eq_mod)
qed

lemma low_octets:
  assumes "k < 256"
  shows "(167772160 + int k) div 16777216 mod 256 = 10"
    and "(167772160 + int k) div 65536 mod 256 = 0"
    and "(167772160 + int k) div 256 mod 256 = 0"
    and "(167772160 + int k) mod 256 = int k"
proof -
  have k0: "int k div 16777216 = 0" "int k div 65536 = 0" "int k div 256 = 0" "int k mod 256 = int k"
    using assms by simp_all
  have "(10 * 16777216 + int k) div 16777216 = 10 + int k div 16777216"
    by (rule div_mult_self3) simp
  then have a: "(167772160 + int k) div 16777216 = 10" by (simp add: k0)
  have "(2560 * 65536 + int k) div 65536 = 2560 + int k div 65536"
    by (rule div_mult_self3) simp
  then have b: "(167772160 + int k) div 65536 = 2560" by (simp add: k0)
  have "(655360 * 256 + int k) div 256 = 655360 + int k div 256"
    by (rule div_mult_self3) simp
  then have c: "(167772160 + int k) div 256 = 655360" by (simp add: k0)
  have "(655360 * 256 + int k) mod 256 = int k mod 256" by (rule mod_mult_self3)
  then have d: "(167772160 + int k) mod 256 = int k" by (simp add: k0)
  show "(167772160 + int k) div 16777216 mod 256 = 10" by (simp add: a)
  show "(167772160 + int k) div 65536 mod 256 = 0" by (simp add: b)
  show "(167772160 + int k) div 256 mod 256 = 0" by (simp add: c)
  show "(167772160 + int k) mod 256 = int k" by (rule d)
qed

lemma char_of_digit: "char_of (48::nat) = CHR ''0''" "char_of (49::nat) = CHR ''1''"
  by code_simp+
lemma dec_nat_0: "dec_nat 0 = ''0''" by (simp add: dec_nat.simps [of 0] char_of_digit)
lemma dec_nat_1: "dec_nat (Suc 0) = ''1''" by (simp add: dec_nat.simps [of "Suc 0"] char_of_digit)
lemma dec_nat_10: "dec_nat 10 = ''10''" by (simp add: dec_nat.simps [of 10] dec_nat_1 char_of_digit)

lemma ipStr_low:
  assumes "k < 256"
  shows "ipStr (167772160 + int k) = ''10.0.0.'' @ dec_nat k"
proof -
  let ?ip = "167772160 + int k"
  have p: "(2::int) ^ 24 = 16777216" "(2::int) ^ 16 = 65536" "(2::int) ^ 8 = 256"
    by simp_all
  have o: "drop_bit 24 ?ip AND 255 = 10" "drop_bit 16 ?ip AND 255 = 0"
       "drop_bit 8 ?ip AND 255 = 0" "?ip AND 255 = int k"
    by (simp_all only: and_255 drop_bit_eq_div p low_octets [OF assms])
  have f: "fmt_i 10 = ''10''" "fmt_i 0 = ''0''" "fmt_i (int k) = dec_nat k"
    by (simp_all add: fmt_i_def dec_nat_10 dec_nat_0)
  show ?thesis
    unfolding ipStr_def Let_def o f by simp
qed

section \<open>The interface walk computes the allocation\<close>

lemma ipNum_base: "ipNum 10 0 0 0 = 167772160"
  by (simp add: ipNum_def)

lemma ipStr_mod_add: "ipStr (a mod 2 ^ 32 + k) = ipStr (a + k)"
proof -
  have "ipStr (a mod 2 ^ 32 + k) = ipStr ((a mod 2 ^ 32 + k) mod 2 ^ 32)"
    by (simp only: ipStr_mod)
  also have "(a mod 2 ^ 32 + k) mod 2 ^ 32 = (a + k) mod 2 ^ 32"
    by (simp only: mod_add_left_eq)
  finally show ?thesis by (simp only: ipStr_mod)
qed

lemma calls_of_Nil: "calls_of net [] = []"
  by (simp add: calls_of_def)

lemma calls_of_snoc: "calls_of net (ls @ [l]) = calls_of net ls @ pair_calls net (length ls) l"
proof -
  have h: "map (\<lambda>n. pair_calls net n ((ls @ [l]) ! n)) [0..<length ls]
          = map (\<lambda>n. pair_calls net n (ls ! n)) [0..<length ls]"
    by (rule map_cong) (simp_all add: nth_append)
  show ?thesis by (simp add: calls_of_def h)
qed

lemma epc_init_of: "epc_init = epc_of net []"
  using ipStr_low [of 0]
  by (simp add: epc_init_def epc_of_def calls_of_Nil ipNum_base dec_nat_0)

lemma visit_intf_refines:
  "visit_intf net i (epc_of net ls) = Inr (epc_of net (alloc_step net ls i))"
proof -
  let ?b = "ipNum 10 0 0 0 + 4 * int (length ls)"
  have p: "ipParse (ndnNetBase (epc_of net ls)) = Inr (?b mod 2 ^ 32)"
    by (simp add: epc_of_def ipParse_ipStr)
  have e: "ipStr (?b mod 2 ^ 32 + 1) = ipStr (?b + 1)" "ipStr (?b mod 2 ^ 32 + 2) = ipStr (?b + 2)"
          "ipStr (?b mod 2 ^ 32 + 4) = ipStr (?b + 4)"
    by (rule ipStr_mod_add)+
  have b4: "?b + 4 = ipNum 10 0 0 0 + 4 * int (length (ls @ [intf_link net i]))" by simp
  show ?thesis
    unfolding visit_intf_def Let_def p sum.case e
    by (simp add: alloc_step_def Let_def point_to_point_def epc_of_def calls_of_snoc pair_calls_def
        link_ends_def ac_simps)
qed

lemma walk_intfs_refines:
  "walk_intfs net is (epc_of net ls) = Inr (epc_of net (foldl (alloc_step net) ls is))"
  by (induction "is" arbitrary: ls) (simp_all add: visit_intf_refines)

lemma walk_intfs_append:
  "walk_intfs net (xs @ ys) st =
     (case walk_intfs net xs st of Inl e \<Rightarrow> Inl e | Inr st' \<Rightarrow> walk_intfs net ys st')"
  by (induction xs arbitrary: st) (auto split: sum.splits)

lemma walk_hosts_flat:
  "walk_hosts net hs st = walk_intfs net (concat (map (intfList net) hs)) st"
  by (induction hs arbitrary: st) (auto simp: walk_intfs_append split: sum.splits)

lemma epc_refines: "ethernetPairConnectivity net = Inr (calls_of net (allocated_links net))"
proof -
  have "walk_hosts net (hosts net) epc_init = Inr (epc_of net (allocated_links net))"
    by (simp only: walk_hosts_flat epc_init_of [of net] walk_intfs_refines allocated_links_def
        walk_order_def)
  then show ?thesis
    by (simp add: ethernetPairConnectivity_def epc_of_def)
qed

lemma length_calls_of: "length (calls_of net ls) = 2 * length ls"
  by (induction ls rule: rev_induct) (simp_all add: calls_of_Nil calls_of_snoc pair_calls_def)

lemma calls_of_nth:
  "n < length ls \<Longrightarrow>
     calls_of net ls ! (2 * n) = pair_calls net n (ls ! n) ! 0 \<and>
     calls_of net ls ! (2 * n + 1) = pair_calls net n (ls ! n) ! 1"
proof (induction ls rule: rev_induct)
  case Nil
  then show ?case by simp
next
  case (snoc l ls)
  show ?case
  proof (cases "n < length ls")
    case True
    with snoc.IH show ?thesis
      by (simp add: calls_of_snoc nth_append length_calls_of)
  next
    case False
    with snoc.prems have "n = length ls" by simp
    then show ?thesis
      by (simp add: calls_of_snoc nth_append length_calls_of)
  qed
qed

lemma alloc_step_cases:
  "alloc_step net ls i = ls \<or>
   (alloc_step net ls i = ls @ [intf_link net i] \<and> point_to_point net (intf_link net i)
      \<and> link_intf1 net (intf_link net i) \<notin> set (concat (map (link_ends net) ls))
      \<and> link_intf2 net (intf_link net i) \<notin> set (concat (map (link_ends net) ls)))"
  by (simp add: alloc_step_def Let_def)

lemma foldl_alloc_origin:
  "l \<in> set (foldl (alloc_step net) ls is) \<Longrightarrow>
     l \<in> set ls \<or> (\<exists>i\<in>set is. l = intf_link net i \<and> point_to_point net l)"
proof (induction "is" arbitrary: ls)
  case Nil
  then show ?case by simp
next
  case (Cons i rest)
  from Cons.IH [OF Cons.prems [simplified]] alloc_step_cases [of net ls i]
  show ?case by auto
qed

lemma allocated_origin:
  "l \<in> set (allocated_links net) \<Longrightarrow>
     \<exists>i\<in>set (walk_order net). l = intf_link net i \<and> point_to_point net l"
  using foldl_alloc_origin [of l net "[]" "walk_order net"] by (simp add: allocated_links_def)

lemma ipStr_1_1: "ipStr (ipNum 10 0 0 0 + 4 * 64 + 1) = ''10.0.1.1''"
proof -
  have ip: "ipNum 10 0 0 0 + 4 * 64 + 1 = (167772417::int)" by (simp add: ipNum_base)
  have p: "(2::int) ^ 24 = 16777216" "(2::int) ^ 16 = 65536" "(2::int) ^ 8 = 256"
    by simp_all
  have o: "drop_bit 24 (167772417::int) AND 255 = 10" "drop_bit 16 (167772417::int) AND 255 = 0"
       "drop_bit 8 (167772417::int) AND 255 = 1" "(167772417::int) AND 255 = 1"
    by (simp_all only: and_255 drop_bit_eq_div p) simp_all
  have f: "fmt_i 10 = ''10''" "fmt_i 0 = ''0''" "fmt_i 1 = ''1''"
    by (simp_all add: fmt_i_def dec_nat_10 dec_nat_0 dec_nat_1)
  show ?thesis
    unfolding ip ipStr_def Let_def o f by simp
qed


lemma foldl_alloc_fixed:
  "\<forall>i\<in>set is. alloc_step net ls i = ls \<Longrightarrow> foldl (alloc_step net) ls is = ls"
  by (induction "is") simp_all

lemma parallel_ends:
  "set (concat (map (link_ends (parallel_links k)) [0..<n])) = {i. i < 2 * n}"
proof -
  have "\<And>i. i < 2 * n \<Longrightarrow> \<exists>l\<in>{0..<n}. i = 2 * l \<or> i = Suc (2 * l)"
  proof -
    fix i :: nat assume "i < 2 * n"
    then have "i div 2 \<in> {0..<n}" "i = 2 * (i div 2) \<or> i = Suc (2 * (i div 2))"
      by (simp, presburger)
    then show "\<exists>l\<in>{0..<n}. i = 2 * l \<or> i = Suc (2 * l)" by blast
  qed
  then show ?thesis
    by (auto simp: link_ends_def parallel_links_def)
qed

lemma parallel_first_host:
  "foldl (alloc_step (parallel_links k)) [] (map (\<lambda>j. 2 * j) [0..<n]) = [0..<n]"
proof (induction n)
  case 0
  then show ?case by simp
next
  case (Suc n)
  have "alloc_step (parallel_links k) [0..<n] (2 * n) = [0..<n] @ [n]"
    unfolding alloc_step_def Let_def parallel_ends
    by (simp add: parallel_links_def point_to_point_def)
  with Suc show ?case by simp
qed

lemma parallel_second_host:
  "foldl (alloc_step (parallel_links k)) [0..<k] (map (\<lambda>j. 2 * j + 1) [0..<k]) = [0..<k]"
proof (rule foldl_alloc_fixed, rule ballI)
  fix i assume "i \<in> set (map (\<lambda>j. 2 * j + 1) [0..<k])"
  then obtain j where j: "j < k" "i = 2 * j + 1" by auto
  then have "link_intf1 (parallel_links k) (intf_link (parallel_links k) i) < 2 * k"
    by (simp add: parallel_links_def)
  then show "alloc_step (parallel_links k) [0..<k] i = [0..<k]"
    unfolding alloc_step_def Let_def parallel_ends by simp
qed

lemma allocated_parallel: "allocated_links (parallel_links k) = [0..<k]"
proof -
  have "walk_order (parallel_links k) = map (\<lambda>j. 2 * j) [0..<k] @ map (\<lambda>j. 2 * j + 1) [0..<k]"
    by (simp add: walk_order_def parallel_links_def)
  then show ?thesis
    by (simp only: allocated_links_def foldl_append parallel_first_host parallel_second_host)
qed

lemma epc_pair:
  assumes "n < length (allocated_links net)"
  shows "\<exists>calls. ethernetPairConnectivity net = Inr calls
           \<and> length calls = 2 * length (allocated_links net)
           \<and> calls ! (2 * n) = pair_calls net n (allocated_links net ! n) ! 0
           \<and> calls ! (2 * n + 1) = pair_calls net n (allocated_links net ! n) ! 1"
  using calls_of_nth [OF assms] by (simp add: epc_refines length_calls_of)

lemma ipStr_base_low:
  "k < 256 \<Longrightarrow> ipStr (ipNum 10 0 0 0 + int k) = ''10.0.0.'' @ dec_nat k"
  by (simp only: ipNum_base ipStr_low)

lemma dec_nat_digit: "n < 10 \<Longrightarrow> dec_nat n = [char_of (48 + n)]"
  by (simp add: dec_nat.simps [of n])

lemma char_of_53: "char_of (53::nat) = CHR ''5''"
  by code_simp

section \<open>Links visited from both ends\<close>

lemma link_objects_ok_iff:
  "link_objects_ok net \<longleftrightarrow> (\<forall>i\<in>set (walk_order net). own_ends net (intf_link net i))"
  by (simp add: link_objects_ok_def own_ends_def Let_def)

lemma foldl_alloc_mono: "set ls \<subseteq> set (foldl (alloc_step net) ls is)"
proof (induction "is" arbitrary: ls)
  case Nil
  show ?case by simp
next
  case (Cons i rest)
  have "set ls \<subseteq> set (alloc_step net ls i)"
    using alloc_step_cases [of net ls i] by auto
  with Cons.IH [of "alloc_step net ls i"] show ?case by auto
qed

lemma set_link_ends: "set (link_ends net l) = {link_intf1 net l, link_intf2 net l}"
  by (simp add: link_ends_def)

lemma distinct_link_ends: "distinct (link_ends net l) \<longleftrightarrow> link_intf1 net l \<noteq> link_intf2 net l"
  by (simp add: link_ends_def)

lemma foldl_alloc_distinct:
  "\<forall>i\<in>set is. link_intf1 net (intf_link net i) \<noteq> link_intf2 net (intf_link net i) \<Longrightarrow>
   distinct (concat (map (link_ends net) ls)) \<Longrightarrow>
   distinct (concat (map (link_ends net) (foldl (alloc_step net) ls is)))"
proof (induction "is" arbitrary: ls)
  case Nil
  then show ?case by simp
next
  case (Cons i rest)
  have "link_intf1 net (intf_link net i) \<noteq> link_intf2 net (intf_link net i)"
    using Cons.prems(1) by simp
  then have "distinct (concat (map (link_ends net) (alloc_step net ls i)))"
    using alloc_step_cases [of net ls i] Cons.prems(2)
    by (auto simp: set_link_ends distinct_link_ends)
  with Cons show ?case by simp
qed

lemma ends_of_calls: "map ip_intf (calls_of net ls) = concat (map (link_ends net) ls)"
  by (induction ls rule: rev_induct)
    (simp_all add: calls_of_Nil calls_of_snoc pair_calls_def link_ends_def)

lemma alloc_step_covers:
  assumes owned: "\<forall>l'\<in>set ls. own_ends net l'" and own: "own_ends net (intf_link net i)"
    and p2p: "point_to_point net (intf_link net i)"
  shows "intf_link net i \<in> set (alloc_step net ls i)"
proof (cases "link_intf1 net (intf_link net i) \<notin> set (concat (map (link_ends net) ls))
            \<and> link_intf2 net (intf_link net i) \<notin> set (concat (map (link_ends net) ls))")
  case True
  with p2p show ?thesis by (simp add: alloc_step_def Let_def)
next
  case False
  then obtain l' e where l': "l' \<in> set ls" "e \<in> set (link_ends net l')"
    "e = link_intf1 net (intf_link net i) \<or> e = link_intf2 net (intf_link net i)"
    by auto
  from l'(1) owned have "own_ends net l'" by blast
  with l'(2) have "intf_link net e = l'" by (auto simp: own_ends_def link_ends_def)
  moreover from own l'(3) have "intf_link net e = intf_link net i" by (auto simp: own_ends_def)
  ultimately have "intf_link net i \<in> set ls" using l'(1) by simp
  then show ?thesis using alloc_step_cases [of net ls i] by auto
qed

lemma foldl_alloc_covers:
  "\<forall>l'\<in>set ls. own_ends net l' \<Longrightarrow> \<forall>j\<in>set is. own_ends net (intf_link net j) \<Longrightarrow>
   i \<in> set is \<Longrightarrow> point_to_point net (intf_link net i) \<Longrightarrow>
   intf_link net i \<in> set (foldl (alloc_step net) ls is)"
proof (induction "is" arbitrary: ls)
  case Nil
  then show ?case by simp
next
  case (Cons j rest)
  have owned_step: "\<forall>l'\<in>set (alloc_step net ls j). own_ends net l'"
    using alloc_step_cases [of net ls j] Cons.prems(1,2) by auto
  show ?case
  proof (cases "i = j")
    case True
    have "intf_link net i \<in> set (alloc_step net ls j)"
      unfolding True using Cons.prems alloc_step_covers [of ls net j] True by simp
    then show ?thesis using foldl_alloc_mono [of "alloc_step net ls j" net rest] by auto
  next
    case False
    with Cons.prems have "i \<in> set rest" by simp
    with Cons.IH [OF owned_step] Cons.prems show ?thesis by simp
  qed
qed

lemma distinct_first_ends:
  "distinct (concat (map (link_ends net) ls)) \<Longrightarrow> distinct (map (link_intf1 net) ls)"
  by (induction ls) (auto simp: link_ends_def)

lemma parallel_ok: "link_objects_ok (parallel_links k)"
  by (auto simp: link_objects_ok_def walk_order_def parallel_links_def Let_def)

lemma upt_2: "[0..<2] = [0, Suc 0]"
  by (simp add: upt_rec numeral_2_eq_2)

lemma set_calls_of:
  "c \<in> set (calls_of net ls) \<Longrightarrow> \<exists>n<length ls. c \<in> set (pair_calls net n (ls ! n))"
  by (auto simp: calls_of_def)

lemma call_origin:
  assumes "c \<in> set (calls_of net (allocated_links net))"
  shows "\<not> is_Switch net (ip_node c) \<and> ip_node c = intf_node net (ip_intf c) \<and>
     (\<exists>i\<in>set (concat (map (intfList net) (hosts net))).
        point_to_point net (intf_link net i) \<and> ip_intf c \<in> set (link_ends net (intf_link net i)))"
proof -
  from set_calls_of [OF assms] obtain n where n: "n < length (allocated_links net)"
    "c \<in> set (pair_calls net n (allocated_links net ! n))" by blast
  from n(1) have "allocated_links net ! n \<in> set (allocated_links net)" by simp
  from allocated_origin [OF this]
  obtain i where i: "i \<in> set (walk_order net)" "allocated_links net ! n = intf_link net i"
    "point_to_point net (intf_link net i)"
    by auto
  from n(2) i(2) have c: "(ip_node c = intf_node net (link_intf1 net (intf_link net i))
       \<and> ip_intf c = link_intf1 net (intf_link net i))
     \<or> (ip_node c = intf_node net (link_intf2 net (intf_link net i))
       \<and> ip_intf c = link_intf2 net (intf_link net i))"
    by (auto simp: pair_calls_def)
  then have "\<not> is_Switch net (ip_node c)" "ip_node c = intf_node net (ip_intf c)"
    "ip_intf c \<in> set (link_ends net (intf_link net i))"
    using i(3) by (auto simp: point_to_point_def set_link_ends)
  with i(1,3) show ?thesis by (auto simp: walk_order_def)
qed

lemma visit_skips_switch:
  "\<not> point_to_point net (intf_link net i) \<Longrightarrow> visit_intf net i st = Inr st"
  by (auto simp: visit_intf_def point_to_point_def Let_def)

lemma init_gate:
  assumes "init float read_config Mininet abspath a topo_arg topoFile_arg noTopo = Inr m"
  shows "init_setIP m =
           (if switches (self_net m) = []
            then Some (calls_of (self_net m) (allocated_links (self_net m))) else None)"
  using assms
  by (auto simp: init_def Let_def epc_refines split: option.splits sum.splits if_splits prod.splits exc.splits)

lemma allocated_switched: "allocated_links switched_net = [2]"
  by (simp add: allocated_links_def walk_order_def switched_net_def alloc_step_def Let_def
      point_to_point_def link_ends_def)

section \<open>The parser loops\<close>

lemma index1_ok: "has_value p \<Longrightarrow> index1 (split_str CHR ''='' p) = Inr (param_val p)"
  by (simp add: index1_def has_value_def param_val_def)

lemma index1_fail: "\<not> has_value p \<Longrightarrow> index1 (split_str CHR ''='' p) = raise IndexError"
  by (simp add: index1_def has_value_def)

lemma node_dict_Nil: "node_dict [] = Map.empty"
  by (simp add: node_dict_def)

lemma node_dict_skip: "node_dict (''_'' # toks) = node_dict toks"
  by (simp add: node_dict_def)

lemma node_dict_Cons:
  "p \<noteq> ''_'' \<Longrightarrow> params ++ node_dict (p # toks) = params(param_key p \<mapsto> param_val p) ++ node_dict toks"
  by (simp add: node_dict_def)

lemma node_params_ok:
  "\<forall>p\<in>set toks. node_token_ok p \<Longrightarrow> node_params toks params = Inr (params ++ node_dict toks)"
proof (induction toks arbitrary: params)
  case Nil
  then show ?case by (simp add: node_dict_Nil)
next
  case (Cons p toks)
  show ?case
  proof (cases "p = ''_''")
    case True
    with Cons show ?thesis by (simp add: node_dict_skip)
  next
    case False
    with Cons.prems have "has_value p" by (simp add: node_token_ok_def)
    with False Cons show ?thesis
      by (simp add: index1_ok node_dict_Cons param_key_def)
  qed
qed

lemma node_params_Inr:
  "node_params toks params = Inr r \<Longrightarrow> \<forall>p\<in>set toks. node_token_ok p"
proof (induction toks arbitrary: params)
  case Nil
  then show ?case by simp
next
  case (Cons p toks)
  show ?case
  proof (cases "p = ''_''")
    case True
    with Cons show ?thesis by (simp add: node_token_ok_def)
  next
    case False
    show ?thesis
    proof (cases "has_value p")
      case True
      with False Cons show ?thesis by (auto simp: index1_ok node_token_ok_def)
    next
      case False
      with \<open>p \<noteq> ''_''\<close> Cons.prems show ?thesis by (simp add: index1_fail raise_def)
    qed
  qed
qed

lemma node_params_fail:
  "\<not> (\<forall>p\<in>set toks. node_token_ok p) \<Longrightarrow> node_params toks params = raise IndexError"
proof (induction toks arbitrary: params)
  case Nil
  then show ?case by simp
next
  case (Cons p toks)
  show ?case
  proof (cases "p = ''_''")
    case True
    with Cons show ?thesis by (simp add: node_token_ok_def)
  next
    case False
    show ?thesis
    proof (cases "has_value p")
      case True
      with False Cons show ?thesis by (simp add: index1_ok node_token_ok_def)
    next
      case False
      with \<open>p \<noteq> ''_''\<close> show ?thesis by (simp add: index1_fail raise_def)
    qed
  qed
qed

lemma coerce_ok:
  "link_token_ok float p \<Longrightarrow>
     \<exists>v1. coerce_int (param_key p) (PyStr (param_val p)) = Inr v1
        \<and> coerce_float float (param_key p) v1 = Inr (typed_value float (param_key p) (param_val p))"
  by (auto simp: link_token_ok_def coerce_int_def coerce_float_def typed_value_def)

lemma coerce_Inr:
  "coerce_int (param_key p) (PyStr (param_val p)) = Inr v1 \<Longrightarrow>
   coerce_float float (param_key p) v1 = Inr v2 \<Longrightarrow> has_value p \<Longrightarrow> link_token_ok float p"
  by (auto simp: link_token_ok_def coerce_int_def coerce_float_def raise_def
      split: if_splits option.splits)

lemma link_dict_Nil: "link_dict float [] = Map.empty"
  by (simp add: link_dict_def)

lemma link_dict_Cons:
  "params ++ link_dict float (p # toks)
     = params(param_key p \<mapsto> typed_value float (param_key p) (param_val p)) ++ link_dict float toks"
  by (simp add: link_dict_def)

lemma link_params_ok:
  "\<forall>p\<in>set toks. link_token_ok float p \<Longrightarrow>
     link_params float toks params = Inr (params ++ link_dict float toks)"
proof (induction toks arbitrary: params)
  case Nil
  then show ?case by (simp add: link_dict_Nil)
next
  case (Cons p toks)
  then have ok: "link_token_ok float p" by simp
  then have hv: "has_value p" by (simp add: link_token_ok_def)
  from coerce_ok [OF ok] obtain v1 where
    v1: "coerce_int (param_key p) (PyStr (param_val p)) = Inr v1"
        "coerce_float float (param_key p) v1 = Inr (typed_value float (param_key p) (param_val p))"
    by blast
  have "link_params float (p # toks) params
          = link_params float toks (params(param_key p \<mapsto> typed_value float (param_key p) (param_val p)))"
    using v1 by (simp add: Let_def index1_ok [OF hv] param_key_def [symmetric])
  also have "\<dots> = Inr (params(param_key p \<mapsto> typed_value float (param_key p) (param_val p))
                         ++ link_dict float toks)"
    using Cons.prems by (intro Cons.IH) simp
  finally show ?case by (simp only: link_dict_Cons)
qed

lemma link_params_Inr:
  "link_params float toks params = Inr r \<Longrightarrow> \<forall>p\<in>set toks. link_token_ok float p"
proof (induction toks arbitrary: params)
  case Nil
  then show ?case by simp
next
  case (Cons p toks)
  show ?case
  proof (cases "has_value p")
    case False
    with Cons.prems show ?thesis by (simp add: Let_def index1_fail raise_def)
  next
    case True
    from Cons.prems True obtain v1 v2 where
      v: "coerce_int (param_key p) (PyStr (param_val p)) = Inr v1"
         "coerce_float float (param_key p) v1 = Inr v2"
         "link_params float toks (params(param_key p \<mapsto> v2)) = Inr r"
      by (auto simp: Let_def index1_ok param_key_def [symmetric] split: sum.splits)
    from coerce_Inr [OF v(1,2) True] Cons.IH [OF v(3)] show ?thesis by simp
  qed
qed

lemma coordinates_of_Cons:
  "coordinates_of (it # items) =
     (if snd it = Some ''_'' then coordinates_of items else snd it # coordinates_of items)"
  by (simp add: coordinates_of_def)

lemma underscore_not_coordinate: "Some ''_'' \<notin> set (coordinates_of items)"
  by (simp add: coordinates_of_def)

lemma process_nodes_ok:
  "\<forall>it\<in>set items. node_item_ok it \<Longrightarrow> distinct (coordinates_of items) \<Longrightarrow>
   set (coordinates_of items) \<inter> set coords = {} \<Longrightarrow>
   process_nodes items coords topo = Inr (topo @ map host_call items)"
proof (induction items arbitrary: coords topo)
  case Nil
  then show ?case by simp
next
  case (Cons it items)
  from Cons.prems(1) obtain v where v: "snd it = Some v"
    "\<forall>p\<in>set (split_str CHR '' '' v). node_token_ok p"
    by (auto simp: node_item_ok_def split: option.splits)
  have nodup: "\<not> (snd it \<in> set coords \<and> snd it \<noteq> Some ''_'')"
    using Cons.prems(3) by (auto simp: coordinates_of_Cons split: if_splits)
  have params: "node_params (split_str CHR '' '' v) Map.empty = Inr (node_dict (split_str CHR '' '' v))"
    using node_params_ok [OF v(2), of Map.empty] by simp
  have rest: "process_nodes items (coords @ [snd it]) (topo @ [host_call it])
                = Inr ((topo @ [host_call it]) @ map host_call items)"
  proof (rule Cons.IH)
    show "\<forall>it\<in>set items. node_item_ok it" using Cons.prems(1) by simp
    show "distinct (coordinates_of items)"
      using Cons.prems(2) by (simp add: coordinates_of_Cons split: if_splits)
    show "set (coordinates_of items) \<inter> set (coords @ [snd it]) = {}"
      using Cons.prems(2,3) underscore_not_coordinate [of items]
      by (auto simp: coordinates_of_Cons split: if_splits)
  qed
  have "process_nodes (it # items) coords topo
          = process_nodes items (coords @ [snd it]) (topo @ [host_call it])"
    using nodup v(1) params by (auto simp: Let_def host_call_def)
  with rest show ?case by simp
qed

lemma process_nodes_Inr:
  "process_nodes items coords topo = Inr t \<Longrightarrow>
     (\<forall>it\<in>set items. node_item_ok it) \<and> distinct (coordinates_of items)
     \<and> set (coordinates_of items) \<inter> set coords = {}"
proof (induction items arbitrary: coords topo)
  case Nil
  then show ?case by (simp add: coordinates_of_def)
next
  case (Cons it items)
  from Cons.prems have nodup: "\<not> (snd it \<in> set coords \<and> snd it \<noteq> Some ''_'')"
    by (auto simp: Let_def split: if_splits)
  from Cons.prems nodup obtain v params where
    v: "snd it = Some v" "node_params (split_str CHR '' '' v) Map.empty = Inr params"
       "process_nodes items (coords @ [snd it]) (topo @ [AddHost (entry_name (fst it)) params]) = Inr t"
    by (auto simp: Let_def raise_def split: if_splits option.splits sum.splits)
  from node_params_Inr [OF v(2)] v(1) have ok: "node_item_ok it"
    by (simp add: node_item_ok_def)
  from Cons.IH [OF v(3)] have ih: "\<forall>it\<in>set items. node_item_ok it"
    "distinct (coordinates_of items)" "set (coordinates_of items) \<inter> set (coords @ [snd it]) = {}"
    by simp_all
  show ?case using ok ih nodup by (auto simp: coordinates_of_Cons)
qed

lemma process_nodes_exit:
  "\<forall>it\<in>set items. node_item_ok it \<Longrightarrow>
   \<not> (distinct (coordinates_of items) \<and> set (coordinates_of items) \<inter> set coords = {}) \<Longrightarrow>
   \<exists>v. v \<noteq> ''_'' \<and> process_nodes items coords topo = Inl (SystemExit 1, [duplicate_message (Some v)])"
proof (induction items arbitrary: coords topo)
  case Nil
  then show ?case by (simp add: coordinates_of_def)
next
  case (Cons it items)
  from Cons.prems(1) obtain v where v: "snd it = Some v"
    "\<forall>p\<in>set (split_str CHR '' '' v). node_token_ok p"
    by (auto simp: node_item_ok_def split: option.splits)
  show ?case
  proof (cases "snd it \<in> set coords \<and> snd it \<noteq> Some ''_''")
    case True
    then show ?thesis using v(1) by (auto simp: Let_def)
  next
    case False
    have params: "node_params (split_str CHR '' '' v) Map.empty = Inr (node_dict (split_str CHR '' '' v))"
      using node_params_ok [OF v(2), of Map.empty] by simp
    have step: "process_nodes (it # items) coords topo
          = process_nodes items (coords @ [snd it]) (topo @ [host_call it])"
      using False v(1) params by (auto simp: Let_def host_call_def)
    have "\<not> (distinct (coordinates_of items)
             \<and> set (coordinates_of items) \<inter> set (coords @ [snd it]) = {})"
      using Cons.prems(2) False
      by (auto simp: coordinates_of_Cons split: if_splits)
    from Cons.IH [OF _ this] Cons.prems(1) step show ?thesis by simp
  qed
qed

lemma process_switches_eq: "process_switches items topo = topo @ map switch_call items"
  by (induction items arbitrary: topo) (simp_all add: switch_call_def)

lemma process_links_ok:
  "\<forall>it\<in>set items. link_item_ok float it \<Longrightarrow>
   process_links float items topo = Inr (topo @ map (link_call float) items)"
proof (induction items arbitrary: topo)
  case Nil
  then show ?case by simp
next
  case (Cons it items)
  from Cons.prems obtain v where v: "snd it = Some v"
    "\<forall>p\<in>set (split_str CHR '' '' v). link_token_ok float p"
    "2 \<le> length (split_str CHR '':'' (fst it))"
    by (auto simp: link_item_ok_def split: option.splits)
  have params: "link_params float (split_str CHR '' '' v) Map.empty
                  = Inr (link_dict float (split_str CHR '' '' v))"
    using link_params_ok [OF v(2), of Map.empty] by simp
  have "process_links float (it # items) topo
          = process_links float items (topo @ [link_call float it])"
    using v(1,3) params by (simp add: Let_def link_call_def index1_def)
  also have "\<dots> = Inr ((topo @ [link_call float it]) @ map (link_call float) items)"
    using Cons.prems by (intro Cons.IH) simp
  finally show ?case by simp
qed

lemma process_links_Inr:
  "process_links float items topo = Inr t \<Longrightarrow> \<forall>it\<in>set items. link_item_ok float it"
proof (induction items arbitrary: topo)
  case Nil
  then show ?case by simp
next
  case (Cons it items)
  from Cons.prems obtain v params link1 where
    v: "snd it = Some v" "link_params float (split_str CHR '' '' v) Map.empty = Inr params"
       "index1 (split_str CHR '':'' (fst it)) = Inr link1"
       "process_links float items (topo @ [AddLink (hd (split_str CHR '':'' (fst it))) link1 params]) = Inr t"
    by (auto simp: Let_def raise_def split: option.splits sum.splits)
  from v(3) have "2 \<le> length (split_str CHR '':'' (fst it))"
    by (auto simp: index1_def raise_def split: if_splits)
  with link_params_Inr [OF v(2)] v(1) have "link_item_ok float it"
    by (simp add: link_item_ok_def)
  with Cons.IH [OF v(4)] show ?case by simp
qed

lemma processTopo_ok:
  assumes "config ''nodes'' = Some ns" "nodes_ok ns" "config ''links'' = Some ls"
    "\<forall>it\<in>set ls. link_item_ok float it"
  shows "processTopo float config
           = Inr (map host_call ns @ map switch_call (switch_items config) @ map (link_call float) ls)"
proof -
  have n: "process_nodes ns [] [] = Inr (map host_call ns :: 'a topo)"
    using assms(2) process_nodes_ok [of ns "[]" "[]"] by (simp add: nodes_ok_def)
  show ?thesis
    using assms(1,3) n process_links_ok [OF assms(4)]
    by (simp add: processTopo_def Let_def process_switches_eq switch_items_def split: option.splits)
qed

lemma processTopo_Inr:
  assumes "processTopo float config = Inr t"
  shows "\<exists>ns ls. config ''nodes'' = Some ns \<and> nodes_ok ns \<and> config ''links'' = Some ls
           \<and> (\<forall>it\<in>set ls. link_item_ok float it)
           \<and> t = map host_call ns @ map switch_call (switch_items config) @ map (link_call float) ls"
proof -
  from assms obtain ns t1 ls where
    s: "config ''nodes'' = Some ns" "process_nodes ns [] [] = Inr (t1 :: 'a topo)"
       "config ''links'' = Some ls"
       "process_links float ls (case config ''switches'' of None \<Rightarrow> t1 | Some sw \<Rightarrow> process_switches sw t1) = Inr t"
    by (auto simp: processTopo_def Let_def raise_def split: option.splits sum.splits)
  from process_nodes_Inr [OF s(2)] have nok: "nodes_ok ns" by (simp add: nodes_ok_def)
  from process_links_Inr [OF s(4)] have lok: "\<forall>it\<in>set ls. link_item_ok float it" .
  from processTopo_ok [OF s(1) nok s(3) lok] assms s(1,3) nok lok show ?thesis by simp
qed

lemma split_examples:
  "split_str CHR '' '' ''_'' = [''_'']"
  "split_str CHR '' '' ''radius=1 angle=2'' = [''radius=1'', ''angle=2'']"
  "split_str CHR '' '' ''delay=10ms bw=10 loss=2'' = [''delay=10ms'', ''bw=10'', ''loss=2'']"
  "split_str CHR ''='' ''radius=1'' = [''radius'', ''1'']"
  "split_str CHR ''='' ''angle=2'' = [''angle'', ''2'']"
  "split_str CHR ''='' ''delay=10ms'' = [''delay'', ''10ms'']"
  "split_str CHR ''='' ''bw=10'' = [''bw'', ''10'']"
  "split_str CHR ''='' ''loss=2'' = [''loss'', ''2'']"
  "split_str CHR '':'' ''a:'' = [''a'', '''']"
  "split_str CHR '':'' ''b:'' = [''b'', '''']"
  "split_str CHR '':'' ''a:b'' = [''a'', ''b'']"
  "split_str CHR '':'' ''s1:'' = [''s1'', [] ]"
  by (simp_all add: Let_def)

lemma py_int_examples: "py_int ''10'' = Some 10" "py_int ''2'' = Some 2"
  by (simp_all add: py_int_def py_strip_def is_space_def unsigned_int_def is_digit_def
      digits_value_def digit_val_def Let_def)

lemma hd_split_str: "hd (split_str sep s) = takeWhile (\<lambda>c. c \<noteq> sep) s"
  by (induction s) (simp_all add: Let_def)

lemma node_params_filter:
  "node_params (filter (\<lambda>p. p \<noteq> ''_'') toks) params = node_params toks params"
  by (induction toks arbitrary: params) (auto split: sum.splits)

lemma node_dict_underscore: "node_dict (split_str CHR '' '' ''_'') = Map.empty"
  by (simp add: split_examples node_dict_skip node_dict_Nil)

lemma underscore_item_ok: "snd it = Some ''_'' \<Longrightarrow> node_item_ok it"
  by (simp add: node_item_ok_def split_examples node_token_ok_def)

lemma all_underscore_ok: "\<forall>it\<in>set items. snd it = Some ''_'' \<Longrightarrow> nodes_ok items"
proof -
  assume a: "\<forall>it\<in>set items. snd it = Some ''_''"
  then have "coordinates_of items = []"
    by (auto simp: coordinates_of_def filter_empty_conv)
  with a show ?thesis by (simp add: nodes_ok_def underscore_item_ok)
qed

lemma process_nodes_start:
  "nodes_ok items \<Longrightarrow> process_nodes items [] [] = Inr (map host_call items)"
  using process_nodes_ok [of items "[]" "[]"] by (simp add: nodes_ok_def)

lemma host_call_underscore:
  "snd it = Some ''_'' \<Longrightarrow> host_call it = AddHost (entry_name (fst it)) Map.empty"
  by (simp add: host_call_def split_examples node_dict_skip node_dict_Nil)

lemma duplicate_not_distinct:
  assumes "i < j" "j < length items" "snd (items ! i) = snd (items ! j)"
    "snd (items ! j) \<noteq> Some ''_''"
  shows "\<not> distinct (coordinates_of items)"
proof
  assume d: "distinct (coordinates_of items)"
  let ?vs = "map snd items"
  let ?P = "\<lambda>v. v \<noteq> Some ''_''"
  have i: "i < length ?vs" and j: "j < length ?vs" using assms(1,2) by simp_all
  have eq: "?vs ! i = ?vs ! j" using assms(1,2,3) by simp
  have P: "?P (?vs ! j)" using assms(2,4) by simp
  have split: "?vs = take j ?vs @ ?vs ! j # drop (Suc j) ?vs"
    using j by (rule id_take_nth_drop)
  have "?vs ! i \<in> set (take j ?vs)"
    using assms(1) j by (auto simp: in_set_conv_nth intro!: exI [of _ i])
  then have "?vs ! j \<in> set (filter ?P (take j ?vs))" using eq P by simp
  moreover have "filter ?P ?vs = filter ?P (take j ?vs) @ ?vs ! j # filter ?P (drop (Suc j) ?vs)"
    using P by (subst split) simp
  ultimately show False using d by (simp add: coordinates_of_def)
qed

lemma duplicate_items_ok:
  "\<forall>it\<in>set [(''a:'', Some ''radius=1 angle=2''), (''b:'', Some ''radius=1 angle=2'')]. node_item_ok it"
  by (simp add: node_item_ok_def node_token_ok_def has_value_def split_examples)

lemma link_dict_SomeD:
  "link_dict float toks k = Some v \<Longrightarrow>
     \<exists>p\<in>set toks. param_key p = k \<and> v = typed_value float k (param_val p)"
  by (auto simp: link_dict_def dest!: map_of_SomeD)

lemma example_tokens_ok:
  "\<forall>p\<in>set [''delay=10ms'', ''bw=10'', ''loss=2'']. link_token_ok whole_float p"
  by (simp add: link_token_ok_def has_value_def param_key_def param_val_def split_examples
      py_int_examples whole_float_def)

lemma example_link_dict:
  "link_dict whole_float [''delay=10ms'', ''bw=10'', ''loss=2'']
     = [''delay'' \<mapsto> PyStr ''10ms'', ''bw'' \<mapsto> PyInt 10, ''loss'' \<mapsto> PyFloat 2]"
  by (rule ext)
    (simp add: link_dict_def param_key_def param_val_def split_examples typed_value_def
      py_int_examples whole_float_def)

lemma example_nodes_ok: "nodes_ok [(''a:'', Some ''_''), (''b:'', Some ''radius=1 angle=2'')]"
  by (simp add: nodes_ok_def node_item_ok_def node_token_ok_def has_value_def coordinates_of_def
      split_examples)

lemma example_links_ok:
  "\<forall>it\<in>set [(''a:b'', Some ''delay=10ms bw=10 loss=2'')]. link_item_ok whole_float it"
  using example_tokens_ok by (simp add: link_item_ok_def split_examples)

lemma example_node_dict:
  "node_dict [''radius=1'', ''angle=2''] = [''radius'' \<mapsto> ''1'', ''angle'' \<mapsto> ''2'']"
  by (rule ext) (simp add: node_dict_def param_key_def param_val_def split_examples)

lemma example_calls:
  "map host_call [(''a:'', Some ''_''), (''b:'', Some ''radius=1 angle=2'')]
     = [AddHost ''a'' Map.empty, AddHost ''b'' [''radius'' \<mapsto> ''1'', ''angle'' \<mapsto> ''2'']]"
  "map switch_call [(''s1:'', Some ''_'')] = [AddSwitch ''s1'']"
  "map (link_call whole_float) [(''a:b'', Some ''delay=10ms bw=10 loss=2'')]
     = [AddLink ''a'' ''b'' [''delay'' \<mapsto> PyStr ''10ms'', ''bw'' \<mapsto> PyInt 10, ''loss'' \<mapsto> PyFloat 2]]"
  by (simp_all add: host_call_def switch_call_def link_call_def entry_name_def split_examples
      node_dict_skip node_dict_Nil example_node_dict example_link_dict)

lemma processTopo_no_nodes:
  "config ''nodes'' = None \<Longrightarrow> processTopo float config = Inl (NoSectionError ''nodes'', [])"
  by (simp add: processTopo_def raise_def)

lemma processTopo_no_links:
  "config ''nodes'' = Some ns \<Longrightarrow> nodes_ok ns \<Longrightarrow> config ''links'' = None \<Longrightarrow>
     processTopo (float :: 'f pyval \<Rightarrow> 'f option) config = Inl (NoSectionError ''links'', [])"
proof -
  assume a: "config ''nodes'' = Some ns" "nodes_ok ns" "config ''links'' = None"
  have "process_nodes ns [] [] = (Inr (map host_call ns) :: failure + 'f topo)"
    using a(2) by (rule process_nodes_start)
  then show ?thesis
    using a(1,3) by (simp add: processTopo_def raise_def Let_def)
qed

lemma init_NoSectionError:
  "processTopo float config = Inl (NoSectionError sec, log) \<Longrightarrow>
     init float (\<lambda>file. config) Mininet abspath a None topoFile_arg False = Inl (SystemExit 1, log)"
  by (simp add: init_def Let_def)

section \<open>Traces of stop\<close>

lemma cleanup_indices:
  "map Cleanup [k..<Suc (k + n)] = Cleanup k # map Cleanup [Suc k..<Suc (k + n)]"
proof -
  have "[k..<Suc (k + n)] = k # [Suc k..<Suc (k + n)]" by (rule upt_conv_Cons) simp
  then show ?thesis by (simp only: list.map)
qed

lemma run_cleanups_returns:
  "\<forall>c\<in>set cs. returns c \<Longrightarrow>
     run_cleanups cs k tr w = (tr @ map Cleanup [k..<k + length cs], Inr (run_all cs w))"
proof (induction cs arbitrary: k tr w)
  case Nil
  then show ?case by (simp add: run_all_def)
next
  case (Cons c cs)
  from Cons.prems obtain w' where w': "c w = Inr w'" by (auto simp: returns_def)
  have "run_cleanups (c # cs) k tr w = run_cleanups cs (Suc k) (tr @ [Cleanup k]) w'"
    using w' by simp
  also have "\<dots> = ((tr @ [Cleanup k]) @ map Cleanup [Suc k..<Suc k + length cs], Inr (run_all cs w'))"
    using Cons.prems by (intro Cons.IH) simp
  finally show ?case using w' by (simp add: run_all_def cleanup_indices del: upt_Suc)
qed

lemma run_cleanups_Inr:
  "run_cleanups cs k tr w = (tr', Inr w') \<Longrightarrow> tr' = tr @ map Cleanup [k..<k + length cs]"
proof (induction cs arbitrary: k tr w)
  case Nil
  then show ?case by simp
next
  case (Cons c cs)
  show ?case
  proof (cases "c w")
    case (Inl e)
    with Cons.prems show ?thesis by simp
  next
    case (Inr w1)
    with Cons.prems have "run_cleanups cs (Suc k) (tr @ [Cleanup k]) w1 = (tr', Inr w')" by simp
    from Cons.IH [OF this] show ?thesis
      by (simp add: cleanup_indices del: upt_Suc)
  qed
qed

lemma run_cleanups_Inl:
  "run_cleanups cs k tr w = (tr', Inl e) \<Longrightarrow> \<exists>xs. tr' = tr @ xs \<and> NetStop \<notin> set xs \<and> (\<forall>x\<in>set xs. \<not> file_event x)"
proof (induction cs arbitrary: k tr w)
  case Nil
  then show ?case by simp
next
  case (Cons c cs)
  show ?case
  proof (cases "c w")
    case (Inl e')
    with Cons.prems show ?thesis by auto
  next
    case (Inr w1)
    with Cons.prems have "run_cleanups cs (Suc k) (tr @ [Cleanup k]) w1 = (tr', Inl e)" by simp
    from Cons.IH [OF this] show ?thesis by auto
  qed
qed

lemma move_files_trace:
  "\<exists>m. fst (move_files os files dir tr w) = tr @ map (\<lambda>f. Move f dir) (take m files)"
proof (induction files arbitrary: tr w)
  case Nil
  then show ?case by simp
next
  case (Cons fl files)
  show ?case
  proof (cases "shutil_move os fl dir w")
    case (Inl e)
    then have "fst (move_files os (fl # files) dir tr w)
                 = tr @ map (\<lambda>f. Move f dir) (take 1 (fl # files))" by simp
    then show ?thesis by blast
  next
    case (Inr w')
    from Cons.IH [of "tr @ [Move fl dir]" w'] obtain m where
      "fst (move_files os files dir (tr @ [Move fl dir]) w')
         = (tr @ [Move fl dir]) @ map (\<lambda>f. Move f dir) (take m files)" by blast
    with Inr have "fst (move_files os (fl # files) dir tr w)
                 = tr @ map (\<lambda>f. Move f dir) (take (Suc m) (fl # files))" by simp
    then show ?thesis by blast
  qed
qed

lemma move_files_returns:
  "\<forall>file. returns (shutil_move os file dir) \<Longrightarrow>
     move_files os files dir tr w
       = (tr @ map (\<lambda>f. Move f dir) files, Inr (run_all (map (\<lambda>f. shutil_move os f dir) files) w))"
proof (induction files arbitrary: tr w)
  case Nil
  then show ?case by (simp add: run_all_def)
next
  case (Cons fl files)
  from Cons.prems obtain w' where w': "shutil_move os fl dir w = Inr w'"
    by (auto simp: returns_def)
  with Cons.IH [OF Cons.prems, of "tr @ [Move fl dir]" w'] show ?case
    by (simp add: run_all_def)
qed

lemma stop_cases:
  "(\<exists>tr e. run_cleanups (cleanups self) 0 [] w = (tr, Inl e) \<and> stop os self w = (tr, Inl e))
   \<or> (\<exists>w1. run_cleanups (cleanups self) 0 [] w
               = (map Cleanup [0..<length (cleanups self)], Inr w1)
        \<and> ((\<exists>e. net_stop os w1 = Inl e
               \<and> stop os self w = (map Cleanup [0..<length (cleanups self)] @ [NetStop], Inl e))
           \<or> (\<exists>w2. net_stop os w1 = Inr w2
               \<and> (case resultDir self of
                     None \<Rightarrow> stop os self w
                               = (map Cleanup [0..<length (cleanups self)] @ [NetStop], Inr w2)
                   | Some dir \<Rightarrow>
                       stop os self w =
                         move_files os
                           (glob_glob os (workDir self @ ''/*'') (os_system os (''mkdir -p '' @ dir) w2))
                           dir
                           (map Cleanup [0..<length (cleanups self)]
                              @ [NetStop, Info (moving_message dir), System (''mkdir -p '' @ dir)])
                           (os_system os (''mkdir -p '' @ dir) w2)))))"
proof (cases "run_cleanups (cleanups self) 0 [] w")
  case (Pair tr r)
  show ?thesis
  proof (cases r)
    case (Inl e)
    with Pair show ?thesis by (simp add: stop_def)
  next
    case (Inr w1)
    with Pair run_cleanups_Inr [of "cleanups self" 0 "[]" w tr w1]
    have tr: "tr = map Cleanup [0..<length (cleanups self)]" by simp
    show ?thesis
      using Pair Inr tr
      by (cases "net_stop os w1"; cases "resultDir self") (simp_all add: stop_def Let_def)
  qed
qed

lemma example_returns:
  "\<forall>c\<in>set (cleanups (example_self dir)). returns c"
  "returns (net_stop example_os)"
  "\<forall>file. returns (shutil_move example_os file d)"
  by (simp_all add: example_self_def example_os_def returns_def log_world_def)

lemma cleanup_not_file_event: "\<forall>e\<in>set (map Cleanup ks). \<not> file_event e"
  by simp

section \<open>Automatic addresses on a switch-less network\<close>

text \<open>
  Claim C1, as amended.  For every network, \<^verbatim>\<open>ethernetPairConnectivity\<close> returns, and its
  \<^verbatim>\<open>setIP\<close> calls come in pairs, one pair per allocated link of the interface walk: the
  \<open>n\<close>-th pair (from 0) is made on the two end interfaces of one visited link and carries the
  addresses numerically \<open>4n + 1\<close> and \<open>4n + 2\<close> above 10.0.0.0, printed by \<^verbatim>\<open>ipStr\<close> with
  the suffix /30, the base advancing by 4 per pair.  For \<open>n < 64\<close> these are
  10.0.0.(4n+1)/30 and 10.0.0.(4n+2)/30; from the 65th pair on the sum carries into the
  third octet.
\<close>

theorem sequential_subnets:
  "\<exists>calls. ethernetPairConnectivity net = Inr calls \<and> even (length calls) \<and>
     (\<forall>n < length calls div 2.
        (\<exists>i\<in>set (concat (map (intfList net) (hosts net))).
            ip_intf (calls ! (2 * n)) = link_intf1 net (intf_link net i) \<and>
            ip_intf (calls ! (2 * n + 1)) = link_intf2 net (intf_link net i)) \<and>
        ip_addr (calls ! (2 * n)) = ipStr (ipNum 10 0 0 0 + 4 * int n + 1) @ ''/30'' \<and>
        ip_addr (calls ! (2 * n + 1)) = ipStr (ipNum 10 0 0 0 + 4 * int n + 2) @ ''/30'' \<and>
        (n < 64 \<longrightarrow>
           ip_addr (calls ! (2 * n)) = ''10.0.0.'' @ dec_nat (4 * n + 1) @ ''/30'' \<and>
           ip_addr (calls ! (2 * n + 1)) = ''10.0.0.'' @ dec_nat (4 * n + 2) @ ''/30''))"
proof -
  let ?ls = "allocated_links net"
  let ?calls = "calls_of net ?ls"
  have len: "length ?calls = 2 * length ?ls" by (rule length_calls_of)
  have "\<forall>n < length ?calls div 2.
        (\<exists>i\<in>set (concat (map (intfList net) (hosts net))).
            ip_intf (?calls ! (2 * n)) = link_intf1 net (intf_link net i) \<and>
            ip_intf (?calls ! (2 * n + 1)) = link_intf2 net (intf_link net i)) \<and>
        ip_addr (?calls ! (2 * n)) = ipStr (ipNum 10 0 0 0 + 4 * int n + 1) @ ''/30'' \<and>
        ip_addr (?calls ! (2 * n + 1)) = ipStr (ipNum 10 0 0 0 + 4 * int n + 2) @ ''/30'' \<and>
        (n < 64 \<longrightarrow>
           ip_addr (?calls ! (2 * n)) = ''10.0.0.'' @ dec_nat (4 * n + 1) @ ''/30'' \<and>
           ip_addr (?calls ! (2 * n + 1)) = ''10.0.0.'' @ dec_nat (4 * n + 2) @ ''/30'')"
  proof (intro allI impI)
    fix n assume "n < length ?calls div 2"
    then have n: "n < length ?ls" by (simp add: len)
    note nth = calls_of_nth [OF n, of net]
    from n have "?ls ! n \<in> set ?ls" by simp
    then obtain i where i: "i \<in> set (walk_order net)" "?ls ! n = intf_link net i"
      using allocated_origin by blast
    have ends: "\<exists>i\<in>set (concat (map (intfList net) (hosts net))).
            ip_intf (?calls ! (2 * n)) = link_intf1 net (intf_link net i) \<and>
            ip_intf (?calls ! (2 * n + 1)) = link_intf2 net (intf_link net i)"
      using i nth by (auto simp: walk_order_def pair_calls_def)
    have a1: "ip_addr (?calls ! (2 * n)) = ipStr (ipNum 10 0 0 0 + 4 * int n + 1) @ ''/30''"
      and a2: "ip_addr (?calls ! (2 * n + 1)) = ipStr (ipNum 10 0 0 0 + 4 * int n + 2) @ ''/30''"
      using nth by (simp_all add: pair_calls_def)
    have low: "ip_addr (?calls ! (2 * n)) = ''10.0.0.'' @ dec_nat (4 * n + 1) @ ''/30'' \<and>
           ip_addr (?calls ! (2 * n + 1)) = ''10.0.0.'' @ dec_nat (4 * n + 2) @ ''/30''" if "n < 64"
    proof -
      from that have k: "4 * n + 1 < 256" "4 * n + 2 < 256" by simp_all
      have r: "ipNum 10 0 0 0 + 4 * int n + 1 = ipNum 10 0 0 0 + int (4 * n + 1)"
           "ipNum 10 0 0 0 + 4 * int n + 2 = ipNum 10 0 0 0 + int (4 * n + 2)"
        by simp_all
      have e: "ipStr (ipNum 10 0 0 0 + 4 * int n + 1) = ''10.0.0.'' @ dec_nat (4 * n + 1)"
           "ipStr (ipNum 10 0 0 0 + 4 * int n + 2) = ''10.0.0.'' @ dec_nat (4 * n + 2)"
        by (simp_all only: r ipStr_base_low [OF k(1)] ipStr_base_low [OF k(2)])
      show ?thesis
        unfolding a1 a2 e by simp
    qed
    show "(\<exists>i\<in>set (concat (map (intfList net) (hosts net))).
            ip_intf (?calls ! (2 * n)) = link_intf1 net (intf_link net i) \<and>
            ip_intf (?calls ! (2 * n + 1)) = link_intf2 net (intf_link net i)) \<and>
        ip_addr (?calls ! (2 * n)) = ipStr (ipNum 10 0 0 0 + 4 * int n + 1) @ ''/30'' \<and>
        ip_addr (?calls ! (2 * n + 1)) = ipStr (ipNum 10 0 0 0 + 4 * int n + 2) @ ''/30'' \<and>
        (n < 64 \<longrightarrow>
           ip_addr (?calls ! (2 * n)) = ''10.0.0.'' @ dec_nat (4 * n + 1) @ ''/30'' \<and>
           ip_addr (?calls ! (2 * n + 1)) = ''10.0.0.'' @ dec_nat (4 * n + 2) @ ''/30'')"
      using ends a1 a2 low by blast
  qed
  moreover have "even (length ?calls)" by (simp add: len)
  ultimately show ?thesis
    using epc_refines [of net] by blast
qed

text \<open>The theorem at two hosts joined by two parallel links: the second pair starts at 10.0.0.5.\<close>

theorem sequential_subnets_witness:
  "\<exists>calls. ethernetPairConnectivity (parallel_links 2) = Inr calls
     \<and> (1::nat) < length calls div 2 \<and> (1::nat) < 64
     \<and> ip_addr (calls ! 2) = ''10.0.0.5/30''"
proof -
  obtain calls where c: "ethernetPairConnectivity (parallel_links 2) = Inr calls"
    and all: "\<forall>n < length calls div 2. n < 64 \<longrightarrow>
           ip_addr (calls ! (2 * n)) = ''10.0.0.'' @ dec_nat (4 * n + 1) @ ''/30''"
    using sequential_subnets [of "parallel_links 2"] by blast
  have "calls = calls_of (parallel_links 2) (allocated_links (parallel_links 2))"
    using c by (simp add: epc_refines)
  then have l: "length calls = 4"
    by (simp add: length_calls_of allocated_parallel)
  then have "(1::nat) < length calls div 2" "(1::nat) < 64" by simp_all
  with all have "ip_addr (calls ! (2 * 1)) = ''10.0.0.'' @ dec_nat (4 * 1 + 1) @ ''/30''"
    by blast
  then have "ip_addr (calls ! 2) = ''10.0.0.5/30''"
    by (simp add: dec_nat_digit char_of_53)
  with c l show ?thesis by simp
qed

text \<open>
  Claim C1 as stated fails for the 65th pair (\<open>n = 64\<close>): with 65 parallel links between
  two hosts its first address is 10.0.1.1/30, not 10.0.0.257/30.
\<close>

theorem ip_assignment_carries:
  "assigned_addrs (ethernetPairConnectivity (parallel_links 65)) ! 128 = ''10.0.1.1/30''
   \<and> assigned_addrs (ethernetPairConnectivity (parallel_links 65)) ! 128
         \<noteq> ''10.0.0.'' @ dec_nat (4 * 64 + 1) @ ''/30''"
proof -
  have n: "(64::nat) < length (allocated_links (parallel_links 65))"
    by (simp add: allocated_parallel)
  have l: "length (calls_of (parallel_links 65) (allocated_links (parallel_links 65))) = 130"
    by (simp add: length_calls_of allocated_parallel)
  have "assigned_addrs (ethernetPairConnectivity (parallel_links 65)) ! 128
          = ip_addr (calls_of (parallel_links 65) (allocated_links (parallel_links 65)) ! (2 * 64))"
    using l by (simp add: assigned_addrs_def epc_refines)
  also have "\<dots> = ipStr (ipNum 10 0 0 0 + 4 * 64 + 1) @ ''/30''"
    using calls_of_nth [OF n] by (simp add: pair_calls_def)
  also have "\<dots> = ''10.0.1.1'' @ ''/30''"
    by (simp only: ipStr_1_1)
  finally have "assigned_addrs (ethernetPairConnectivity (parallel_links 65)) ! 128 = ''10.0.1.1/30''"
    by simp
  then show ?thesis by simp
qed

text \<open>
  Claim C2.  The constructor invokes \<^verbatim>\<open>ethernetPairConnectivity\<close> exactly when
  \<^verbatim>\<open>net.switches\<close> is empty, and then its \<^verbatim>\<open>setIP\<close> calls are the routine's.  Inside the
  routine, an interface whose link has a Switch at either end leaves the state as it was,
  and every \<^verbatim>\<open>setIP\<close> call is made on a node that is not a Switch, on an end interface of a
  visited link with no Switch at either end.
\<close>

theorem switchless_gate:
  "(init float read_config Mininet abspath a topo_arg topoFile_arg noTopo = Inr m \<longrightarrow>
      (init_setIP m \<noteq> None \<longleftrightarrow> switches (self_net m) = [])
      \<and> (\<forall>calls. init_setIP m = Some calls \<longrightarrow> ethernetPairConnectivity (self_net m) = Inr calls))
   \<and> (\<not> point_to_point net (intf_link net i) \<longrightarrow> visit_intf net i st = Inr st)
   \<and> (ethernetPairConnectivity net = Inr calls \<longrightarrow>
        (\<forall>c\<in>set calls.
           \<not> is_Switch net (ip_node c) \<and> ip_node c = intf_node net (ip_intf c) \<and>
           (\<exists>i\<in>set (concat (map (intfList net) (hosts net))).
              point_to_point net (intf_link net i)
              \<and> ip_intf c \<in> set (link_ends net (intf_link net i)))))"
proof (intro conjI impI)
  assume "init float read_config Mininet abspath a topo_arg topoFile_arg noTopo = Inr m"
  note g = init_gate [OF this]
  show "init_setIP m \<noteq> None \<longleftrightarrow> switches (self_net m) = []" using g by simp
  show "\<forall>calls. init_setIP m = Some calls \<longrightarrow> ethernetPairConnectivity (self_net m) = Inr calls"
    using g by (simp add: epc_refines split: if_splits)
next
  assume "\<not> point_to_point net (intf_link net i)"
  then show "visit_intf net i st = Inr st" by (rule visit_skips_switch)
next
  assume "ethernetPairConnectivity net = Inr calls"
  then have "calls = calls_of net (allocated_links net)" by (simp add: epc_refines)
  then show "\<forall>c\<in>set calls.
           \<not> is_Switch net (ip_node c) \<and> ip_node c = intf_node net (ip_intf c) \<and>
           (\<exists>i\<in>set (concat (map (intfList net) (hosts net))).
              point_to_point net (intf_link net i)
              \<and> ip_intf c \<in> set (link_ends net (intf_link net i)))"
    using call_origin by blast
qed

text \<open>
  The theorem at a constructor run on a switch-less network, at one on a network with a
  switch, and at the routine run on the network with a switch, whose only direct link
  is the one addressed.
\<close>

theorem switchless_gate_witness:
  "(\<exists>m :: (int, unit) minindn.
      init whole_float (\<lambda>f s. None) (\<lambda>t. parallel_links 1) id example_args (Some []) None False = Inr m
      \<and> init_setIP m \<noteq> None \<and> switches (self_net m) = [])
   \<and> (\<exists>m :: (int, unit) minindn.
      init whole_float (\<lambda>f s. None) (\<lambda>t. switched_net) id example_args (Some []) None False = Inr m
      \<and> init_setIP m = None \<and> switches (self_net m) \<noteq> [])
   \<and> \<not> point_to_point switched_net (intf_link switched_net 0)
   \<and> visit_intf switched_net 0 epc_init = Inr epc_init
   \<and> (\<exists>calls. ethernetPairConnectivity switched_net = Inr calls \<and> calls \<noteq> []
         \<and> (\<forall>c\<in>set calls. \<not> is_Switch switched_net (ip_node c)))"
proof -
  obtain m1 :: "(int, unit) minindn" where m1:
    "init whole_float (\<lambda>f s. None) (\<lambda>t. parallel_links 1) id example_args (Some []) None False = Inr m1"
    "switches (self_net m1) = []"
    by (simp add: init_def Let_def epc_refines parallel_links_def)
  obtain m2 :: "(int, unit) minindn" where m2:
    "init whole_float (\<lambda>f s. None) (\<lambda>t. switched_net) id example_args (Some []) None False = Inr m2"
    "switches (self_net m2) \<noteq> []"
    by (simp add: init_def Let_def switched_net_def)
  have np: "\<not> point_to_point switched_net (intf_link switched_net 0)"
    by (simp add: point_to_point_def switched_net_def)
  have "length (calls_of switched_net (allocated_links switched_net)) = 2"
    by (simp add: length_calls_of allocated_switched)
  then have "calls_of switched_net (allocated_links switched_net) \<noteq> []" by auto
  then obtain calls where calls: "ethernetPairConnectivity switched_net = Inr calls" "calls \<noteq> []"
    by (simp add: epc_refines)
  from switchless_gate [where m = m1 and net = switched_net and i = 0 and st = epc_init
      and calls = calls, of whole_float "\<lambda>f s. None" "\<lambda>t. parallel_links 1" id example_args "Some []" None False]
    m1 np calls
  have a: "init_setIP m1 \<noteq> None" "visit_intf switched_net 0 epc_init = Inr epc_init"
    "\<forall>c\<in>set calls. \<not> is_Switch switched_net (ip_node c)"
    by blast+
  from switchless_gate [where m = m2 and net = switched_net and i = 0 and st = epc_init
      and calls = calls, of whole_float "\<lambda>f s. None" "\<lambda>t. switched_net" id example_args "Some []" None False]
    m2
  have b: "init_setIP m2 = None" by blast
  show ?thesis using m1 m2 np calls a b by blast
qed

section \<open>One subnet per link\<close>

text \<open>
  Claim C8.  On a network whose link objects are well formed, the \<^verbatim>\<open>setIP\<close> calls of
  \<^verbatim>\<open>ethernetPairConnectivity\<close> name pairwise different interfaces, so no interface is
  assigned an address twice; and every link with no Switch at either end that the walk
  meets, from whichever end and however often, has exactly one pair of calls, hence one
  /30 subnet.
\<close>

theorem each_link_once:
  assumes ok: "link_objects_ok net"
  shows "\<exists>calls. ethernetPairConnectivity net = Inr calls
           \<and> distinct (map ip_intf calls)
           \<and> (\<forall>i\<in>set (concat (map (intfList net) (hosts net))).
                 point_to_point net (intf_link net i) \<longrightarrow>
                 (\<exists>!n. n < length calls div 2
                    \<and> ip_intf (calls ! (2 * n)) = link_intf1 net (intf_link net i)
                    \<and> ip_intf (calls ! (2 * n + 1)) = link_intf2 net (intf_link net i)))"
proof -
  let ?ls = "allocated_links net"
  let ?calls = "calls_of net ?ls"
  from ok have own: "\<forall>i\<in>set (walk_order net). own_ends net (intf_link net i)"
    by (simp add: link_objects_ok_iff)
  then have "\<forall>i\<in>set (walk_order net). link_intf1 net (intf_link net i) \<noteq> link_intf2 net (intf_link net i)"
    by (simp add: own_ends_def)
  then have d: "distinct (concat (map (link_ends net) ?ls))"
    unfolding allocated_links_def by (rule foldl_alloc_distinct) simp
  then have dc: "distinct (map ip_intf ?calls)" by (simp add: ends_of_calls)
  have d1: "distinct (map (link_intf1 net) ?ls)" using d by (rule distinct_first_ends)
  have len: "length ?calls div 2 = length ?ls" by (simp add: length_calls_of)
  have once: "\<exists>!n. n < length ?calls div 2
                    \<and> ip_intf (?calls ! (2 * n)) = link_intf1 net (intf_link net i)
                    \<and> ip_intf (?calls ! (2 * n + 1)) = link_intf2 net (intf_link net i)"
    if i: "i \<in> set (walk_order net)" and p: "point_to_point net (intf_link net i)" for i
  proof -
    have "intf_link net i \<in> set ?ls"
      unfolding allocated_links_def using own i p by (intro foldl_alloc_covers) simp_all
    then obtain n where n: "n < length ?ls" "?ls ! n = intf_link net i"
      by (auto simp: in_set_conv_nth)
    have ex: "n < length ?calls div 2
                    \<and> ip_intf (?calls ! (2 * n)) = link_intf1 net (intf_link net i)
                    \<and> ip_intf (?calls ! (2 * n + 1)) = link_intf2 net (intf_link net i)"
      using n calls_of_nth [OF n(1), of net] by (simp add: len pair_calls_def)
    have un: "m = n" if m: "m < length ?calls div 2"
       "ip_intf (?calls ! (2 * m)) = link_intf1 net (intf_link net i)" for m
    proof -
      from m(1) have ml: "m < length ?ls" by (simp add: len)
      with m(2) calls_of_nth [OF ml, of net] have "link_intf1 net (?ls ! m) = link_intf1 net (?ls ! n)"
        by (simp add: pair_calls_def n(2))
      then have "map (link_intf1 net) ?ls ! m = map (link_intf1 net) ?ls ! n"
        using ml n(1) by simp
      moreover have "(map (link_intf1 net) ?ls ! m = map (link_intf1 net) ?ls ! n) = (m = n)"
        using ml n(1) by (intro nth_eq_iff_index_eq [OF d1]) simp_all
      ultimately show "m = n" by blast
    qed
    show ?thesis using ex un by blast
  qed
  have "\<forall>i\<in>set (walk_order net).
          point_to_point net (intf_link net i) \<longrightarrow>
          (\<exists>!n. n < length ?calls div 2
                    \<and> ip_intf (?calls ! (2 * n)) = link_intf1 net (intf_link net i)
                    \<and> ip_intf (?calls ! (2 * n + 1)) = link_intf2 net (intf_link net i))"
    using once by blast
  then have every: "\<forall>i\<in>set (concat (map (intfList net) (hosts net))).
          point_to_point net (intf_link net i) \<longrightarrow>
          (\<exists>!n. n < length ?calls div 2
                    \<and> ip_intf (?calls ! (2 * n)) = link_intf1 net (intf_link net i)
                    \<and> ip_intf (?calls ! (2 * n + 1)) = link_intf2 net (intf_link net i))"
    by (simp only: walk_order_def)
  show ?thesis
    by (intro exI conjI) (rule epc_refines, rule dc, rule every)
qed

text \<open>
  The theorem at two hosts joined by two parallel links, for interface 3: the second
  host's end of the second link, which the walk reaches after the link was allocated.
\<close>

theorem each_link_once_witness:
  "link_objects_ok (parallel_links 2)
   \<and> (\<exists>calls. ethernetPairConnectivity (parallel_links 2) = Inr calls
         \<and> distinct (map ip_intf calls)
         \<and> 3 \<in> set (concat (map (intfList (parallel_links 2)) (hosts (parallel_links 2))))
         \<and> point_to_point (parallel_links 2) (intf_link (parallel_links 2) 3)
         \<and> (\<exists>!n. n < length calls div 2
               \<and> ip_intf (calls ! (2 * n)) = link_intf1 (parallel_links 2) (intf_link (parallel_links 2) 3)
               \<and> ip_intf (calls ! (2 * n + 1)) = link_intf2 (parallel_links 2) (intf_link (parallel_links 2) 3)))"
proof -
  have ok: "link_objects_ok (parallel_links 2)" by (rule parallel_ok)
  have v: "3 \<in> set (concat (map (intfList (parallel_links 2)) (hosts (parallel_links 2))))"
    by (simp add: parallel_links_def upt_2)
  have p: "point_to_point (parallel_links 2) (intf_link (parallel_links 2) 3)"
    by (simp add: point_to_point_def parallel_links_def)
  from each_link_once [OF ok] v p ok show ?thesis by blast
qed

section \<open>The topology file parser\<close>

text \<open>
  Claim C3, as amended.  When two node entries carry the same value and that value is not
  \<open>_\<close>, \<^verbatim>\<open>processTopo\<close> never returns a topology; and when every node entry is well formed
  (a value is present and each of its tokens is \<open>_\<close> or has an \<open>=\<close>), it logs the
  duplicate-coordinate message through \<^verbatim>\<open>error\<close> and exits with status 1.
\<close>

theorem duplicate_coordinate_exit:
  assumes "config ''nodes'' = Some ns" "i < j" "j < length ns"
    "snd (ns ! i) = snd (ns ! j)" "snd (ns ! j) \<noteq> Some ''_''"
  shows "(\<exists>e. processTopo float config = Inl e)
     \<and> ((\<forall>it\<in>set ns. node_item_ok it) \<longrightarrow>
          (\<exists>v. v \<noteq> ''_''
             \<and> processTopo float config = Inl (SystemExit 1, [duplicate_message (Some v)])))"
proof -
  have nd: "\<not> distinct (coordinates_of ns)"
    using assms(2-5) by (rule duplicate_not_distinct)
  have "processTopo float config \<noteq> Inr t" for t
  proof
    assume "processTopo float config = Inr t"
    from processTopo_Inr [OF this] assms(1) nd show False by (auto simp: nodes_ok_def)
  qed
  then have a: "\<exists>e. processTopo float config = Inl e"
    by (cases "processTopo float config") auto
  have b: "\<exists>v. v \<noteq> ''_''
             \<and> processTopo float config = Inl (SystemExit 1, [duplicate_message (Some v)])"
    if ok: "\<forall>it\<in>set ns. node_item_ok it"
  proof -
    from process_nodes_exit [OF ok, of "[]" "[]"] nd
    obtain v where "v \<noteq> ''_''"
      "process_nodes ns [] ([] :: 'a topo) = Inl (SystemExit 1, [duplicate_message (Some v)])"
      by blast
    then show ?thesis using assms(1) by (auto simp: processTopo_def)
  qed
  from a b show ?thesis by blast
qed

text \<open>The theorem at a file whose two nodes both have the value \<open>radius=1 angle=2\<close>.\<close>

theorem duplicate_coordinate_exit_witness:
  "duplicate_config ''nodes'' = Some [(''a:'', Some ''radius=1 angle=2''), (''b:'', Some ''radius=1 angle=2'')]
   \<and> (0::nat) < 1
   \<and> (\<exists>v. v \<noteq> ''_''
         \<and> processTopo whole_float duplicate_config = Inl (SystemExit 1, [duplicate_message (Some v)]))"
proof -
  let ?ns = "[(''a:'', Some ''radius=1 angle=2''), (''b:'', Some ''radius=1 angle=2'')]"
  have c: "duplicate_config ''nodes'' = Some ?ns" by (simp add: duplicate_config_def)
  from duplicate_coordinate_exit [where config = duplicate_config and ns = ?ns and i = 0 and j = 1
      and float = whole_float] duplicate_items_ok c
  show ?thesis by simp
qed

text \<open>
  Claim C3 as stated fails for the value \<open>_\<close>: a file whose two nodes both carry it is
  parsed into a topology with both hosts.
\<close>

theorem shared_underscore_returns:
  "snd (the (shared_underscore ''nodes'') ! 0) = snd (the (shared_underscore ''nodes'') ! 1)
   \<and> processTopo whole_float shared_underscore
       = Inr [AddHost ''a'' Map.empty, AddHost ''b'' Map.empty]"
proof -
  have "nodes_ok [(''a:'', Some ''_''), (''b:'', Some ''_'')]"
    by (rule all_underscore_ok) simp
  then have "processTopo whole_float shared_underscore
       = Inr (map host_call [(''a:'', Some ''_''), (''b:'', Some ''_'')]
              @ map switch_call (switch_items shared_underscore) @ map (link_call whole_float) [])"
    by (intro processTopo_ok) (simp_all add: shared_underscore_def)
  then show ?thesis
    by (simp add: shared_underscore_def switch_items_def host_call_underscore entry_name_def
        split_examples)
qed

text \<open>
  Claim C4.  The parameter loop of a link entry returns exactly when every token has an
  \<open>=\<close>, the values of \<open>bw\<close>, \<open>jitter\<close> and \<open>max_queue_size\<close> are accepted by \<^verbatim>\<open>int\<close> and
  that of \<open>loss\<close> by \<^verbatim>\<open>float\<close>.  The dictionary it returns is the one described by
  \<open>link_dict\<close>: each key present comes from a token with that key, and its value is the
  token's text converted by \<^verbatim>\<open>int\<close> for the three integer keys, by \<^verbatim>\<open>float\<close> for \<open>loss\<close>,
  and the unchanged string for every other key.
\<close>

theorem link_parameter_coercion:
  "((\<exists>params. link_params float toks Map.empty = Inr params)
      \<longleftrightarrow> (\<forall>p\<in>set toks. link_token_ok float p))
   \<and> (link_params float toks Map.empty = Inr params \<longrightarrow>
        params = link_dict float toks
        \<and> (\<forall>k v. params k = Some v \<longrightarrow>
              (\<exists>p\<in>set toks. param_key p = k
                 \<and> (k \<in> {''bw'', ''jitter'', ''max_queue_size''} \<longrightarrow>
                      (\<exists>n. py_int (param_val p) = Some n \<and> v = PyInt n))
                 \<and> (k = ''loss'' \<longrightarrow> (\<exists>x. float (PyStr (param_val p)) = Some x \<and> v = PyFloat x))
                 \<and> (k \<notin> {''bw'', ''jitter'', ''max_queue_size'', ''loss''} \<longrightarrow>
                      v = PyStr (param_val p)))))"
proof (intro conjI impI)
  show "(\<exists>params. link_params float toks Map.empty = Inr params)
          \<longleftrightarrow> (\<forall>p\<in>set toks. link_token_ok float p)"
    using link_params_Inr [of float toks Map.empty] link_params_ok [of toks float Map.empty]
    by blast
next
  assume r: "link_params float toks Map.empty = Inr params"
  from link_params_Inr [OF r] have ok: "\<forall>p\<in>set toks. link_token_ok float p" .
  from link_params_ok [OF ok, of Map.empty] r
  show d: "params = link_dict float toks" by simp
  show "\<forall>k v. params k = Some v \<longrightarrow>
              (\<exists>p\<in>set toks. param_key p = k
                 \<and> (k \<in> {''bw'', ''jitter'', ''max_queue_size''} \<longrightarrow>
                      (\<exists>n. py_int (param_val p) = Some n \<and> v = PyInt n))
                 \<and> (k = ''loss'' \<longrightarrow> (\<exists>x. float (PyStr (param_val p)) = Some x \<and> v = PyFloat x))
                 \<and> (k \<notin> {''bw'', ''jitter'', ''max_queue_size'', ''loss''} \<longrightarrow>
                      v = PyStr (param_val p)))"
  proof (intro allI impI)
    fix k v assume "params k = Some v"
    with d link_dict_SomeD [of float toks k v] obtain p where
      p: "p \<in> set toks" "param_key p = k" "v = typed_value float k (param_val p)"
      by blast
    from ok p(1) have "link_token_ok float p" by blast
    with p(2,3) have
      "(k \<in> {''bw'', ''jitter'', ''max_queue_size''} \<longrightarrow>
                      (\<exists>n. py_int (param_val p) = Some n \<and> v = PyInt n))
       \<and> (k = ''loss'' \<longrightarrow> (\<exists>x. float (PyStr (param_val p)) = Some x \<and> v = PyFloat x))
       \<and> (k \<notin> {''bw'', ''jitter'', ''max_queue_size'', ''loss''} \<longrightarrow>
                      v = PyStr (param_val p))"
      by (auto simp: link_token_ok_def typed_value_def)
    with p(1,2) show "\<exists>p\<in>set toks. param_key p = k
                 \<and> (k \<in> {''bw'', ''jitter'', ''max_queue_size''} \<longrightarrow>
                      (\<exists>n. py_int (param_val p) = Some n \<and> v = PyInt n))
                 \<and> (k = ''loss'' \<longrightarrow> (\<exists>x. float (PyStr (param_val p)) = Some x \<and> v = PyFloat x))
                 \<and> (k \<notin> {''bw'', ''jitter'', ''max_queue_size'', ''loss''} \<longrightarrow>
                      v = PyStr (param_val p))"
      by blast
  qed
qed

text \<open>The theorem at the tokens of \<open>delay=10ms bw=10 loss=2\<close>.\<close>

theorem link_parameter_coercion_witness:
  "link_params whole_float [''delay=10ms'', ''bw=10'', ''loss=2''] Map.empty
       = Inr [''delay'' \<mapsto> PyStr ''10ms'', ''bw'' \<mapsto> PyInt 10, ''loss'' \<mapsto> PyFloat 2]"
proof -
  let ?toks = "[''delay=10ms'', ''bw=10'', ''loss=2'']"
  from link_parameter_coercion [of whole_float ?toks] example_tokens_ok
  obtain params where p: "link_params whole_float ?toks Map.empty = Inr params" by blast
  with link_parameter_coercion [of whole_float ?toks params]
  have "params = link_dict whole_float ?toks" by blast
  with p show ?thesis by (simp only: example_link_dict)
qed

text \<open>
  Claim C5.  \<^verbatim>\<open>processTopo\<close> returns a topology exactly for a file with a nodes and a
  links section whose entries are all well formed and whose node values other than \<open>_\<close>
  are pairwise different; the topology is then one \<^verbatim>\<open>addHost\<close> call per node entry with its
  parsed parameters, followed by one \<^verbatim>\<open>addSwitch\<close> call per switch entry, followed by one
  \<^verbatim>\<open>addLink\<close> call per link entry, between the first two colon-separated names of its key
  and with its typed parameters.
\<close>

theorem processTopo_calls:
  "processTopo float config = Inr t \<longleftrightarrow>
     (\<exists>ns ls. config ''nodes'' = Some ns \<and> nodes_ok ns \<and> config ''links'' = Some ls
        \<and> (\<forall>it\<in>set ls. link_item_ok float it)
        \<and> t = map host_call ns @ map switch_call (switch_items config) @ map (link_call float) ls)"
  using processTopo_Inr [of float config t] processTopo_ok [of config _ _ float]
  by blast

text \<open>The theorem at a file with two nodes, one switch and one link.\<close>

theorem processTopo_calls_witness:
  "processTopo whole_float example_config
       = Inr [AddHost ''a'' Map.empty,
              AddHost ''b'' [''radius'' \<mapsto> ''1'', ''angle'' \<mapsto> ''2''],
              AddSwitch ''s1'',
              AddLink ''a'' ''b'' [''delay'' \<mapsto> PyStr ''10ms'', ''bw'' \<mapsto> PyInt 10, ''loss'' \<mapsto> PyFloat 2]]"
proof -
  let ?ns = "[(''a:'', Some ''_''), (''b:'', Some ''radius=1 angle=2'')]"
  let ?ls = "[(''a:b'', Some ''delay=10ms bw=10 loss=2'')]"
  let ?t = "map host_call ?ns @ map switch_call (switch_items example_config)
              @ map (link_call whole_float) ?ls"
  have c: "example_config ''nodes'' = Some ?ns" "example_config ''links'' = Some ?ls"
    "switch_items example_config = [(''s1:'', Some ''_'')]"
    by (simp_all add: example_config_def switch_items_def)
  have "processTopo whole_float example_config = Inr ?t"
    using processTopo_calls [of whole_float example_config ?t] c(1,2) example_nodes_ok example_links_ok
    by blast
  then show ?thesis
    by (simp only: c(3) example_calls append.simps)
qed

text \<open>
  Claim C9.  A node's name is its key up to the first colon.  Tokens \<open>_\<close> are skipped by
  the parameter loop.  Any number of nodes may have the value \<open>_\<close>: a nodes section whose
  values are all \<open>_\<close> is parsed into one host per entry with an empty parameter dictionary;
  and in any nodes section that parses, every entry with the value \<open>_\<close> gives a host with
  an empty parameter dictionary.
\<close>

theorem underscore_nodes:
  "entry_name key = takeWhile (\<lambda>c. c \<noteq> CHR '':'') key
   \<and> node_params (filter (\<lambda>p. p \<noteq> ''_'') toks) params = node_params toks params
   \<and> ((\<forall>it\<in>set items. snd it = Some ''_'') \<longrightarrow>
        process_nodes items [] [] = Inr (map (\<lambda>it. AddHost (entry_name (fst it)) Map.empty) items :: 'f topo))
   \<and> (nodes_ok items \<longrightarrow>
        (\<exists>t :: 'f topo. process_nodes items [] [] = Inr t \<and> length t = length items
           \<and> (\<forall>n<length items. snd (items ! n) = Some ''_'' \<longrightarrow>
                 t ! n = AddHost (entry_name (fst (items ! n))) Map.empty)))"
proof (intro conjI impI)
  show "entry_name key = takeWhile (\<lambda>c. c \<noteq> CHR '':'') key"
    by (simp add: entry_name_def hd_split_str)
  show "node_params (filter (\<lambda>p. p \<noteq> ''_'') toks) params = node_params toks params"
    by (rule node_params_filter)
next
  assume a: "\<forall>it\<in>set items. snd it = Some ''_''"
  then have h: "map (host_call :: item \<Rightarrow> 'f topo_call) items
               = map (\<lambda>it. AddHost (entry_name (fst it)) Map.empty) items"
    by (intro map_cong) (simp_all add: host_call_underscore)
  show "process_nodes items [] [] = Inr (map (\<lambda>it. AddHost (entry_name (fst it)) Map.empty) items :: 'f topo)"
    by (simp only: process_nodes_start [OF all_underscore_ok [OF a]] h)
next
  assume ok: "nodes_ok items"
  have "\<forall>n<length items. snd (items ! n) = Some ''_'' \<longrightarrow>
          map (host_call :: item \<Rightarrow> 'f topo_call) items ! n = AddHost (entry_name (fst (items ! n))) Map.empty"
    by (simp add: host_call_underscore)
  with process_nodes_start [OF ok]
  show "\<exists>t :: 'f topo. process_nodes items [] [] = Inr t \<and> length t = length items
           \<and> (\<forall>n<length items. snd (items ! n) = Some ''_'' \<longrightarrow>
                 t ! n = AddHost (entry_name (fst (items ! n))) Map.empty)"
    by (intro exI [of _ "map host_call items"]) simp
qed

text \<open>The theorem at two nodes that both have the value \<open>_\<close>.\<close>

theorem underscore_nodes_witness:
  "process_nodes [(''a:'', Some ''_''), (''b:'', Some ''_'')] [] []
       = Inr [AddHost ''a'' Map.empty, AddHost ''b'' Map.empty :: int topo_call]
   \<and> (1::nat) < length [(''a:'', Some ''_''), (''b:'', Some ''_'')]
   \<and> snd ([(''a:'', Some ''_''), (''b:'', Some ''_'')] ! 1) = Some ''_''
   \<and> entry_name ''a:'' = ''a''"
proof -
  let ?items = "[(''a:'', Some ''_''), (''b:'', Some ''_'')]"
  have a: "\<forall>it\<in>set ?items. snd it = Some ''_''" by simp
  have n: "nodes_ok ?items" using a by (rule all_underscore_ok)
  from underscore_nodes [where items = ?items and key = "''a:''" and 'f = int] a
  have "process_nodes ?items [] [] = Inr (map (\<lambda>it. AddHost (entry_name (fst it)) Map.empty) ?items :: int topo)"
    "entry_name ''a:'' = takeWhile (\<lambda>c. c \<noteq> CHR '':'') ''a:''"
    by blast+
  then show ?thesis by (simp add: entry_name_def split_examples)
qed

text \<open>
  Claim C10.  A file without a nodes section makes \<^verbatim>\<open>processTopo\<close> raise
  \<^verbatim>\<open>NoSectionError\<close>, and so does one whose nodes parse but whose links section is missing;
  the constructor turns either into an exit with status 1.  A file with well-formed nodes
  and links sections and no switches section is parsed into its hosts and links.
\<close>

theorem optional_switches:
  "(config ''nodes'' = None \<longrightarrow>
      processTopo (float :: 'f pyval \<Rightarrow> 'f option) config = Inl (NoSectionError ''nodes'', [])
      \<and> init float (\<lambda>file. config) Mininet abspath a None topoFile_arg False
          = (Inl (SystemExit 1, []) :: failure + ('f, 'w) minindn))
   \<and> (config ''nodes'' = Some ns \<and> nodes_ok ns \<and> config ''links'' = None \<longrightarrow>
      processTopo float config = Inl (NoSectionError ''links'', [])
      \<and> init float (\<lambda>file. config) Mininet abspath a None topoFile_arg False
          = (Inl (SystemExit 1, []) :: failure + ('f, 'w) minindn))
   \<and> (config ''nodes'' = Some ns \<and> nodes_ok ns \<and> config ''links'' = Some ls
        \<and> (\<forall>it\<in>set ls. link_item_ok float it) \<and> config ''switches'' = None \<longrightarrow>
      processTopo float config = Inr (map host_call ns @ map (link_call float) ls))"
proof (intro conjI impI)
  assume n: "config ''nodes'' = None"
  show p: "processTopo float config = Inl (NoSectionError ''nodes'', [])"
    using n by (rule processTopo_no_nodes)
  show "init float (\<lambda>file. config) Mininet abspath a None topoFile_arg False
          = (Inl (SystemExit 1, []) :: failure + ('f, 'w) minindn)"
    using p by (rule init_NoSectionError)
next
  assume h: "config ''nodes'' = Some ns \<and> nodes_ok ns \<and> config ''links'' = None"
  from h have h': "config ''nodes'' = Some ns" "nodes_ok ns" "config ''links'' = None"
    by simp_all
  show p: "processTopo float config = Inl (NoSectionError ''links'', [])"
    using h' by (rule processTopo_no_links)
  show "init float (\<lambda>file. config) Mininet abspath a None topoFile_arg False
          = (Inl (SystemExit 1, []) :: failure + ('f, 'w) minindn)"
    using p by (rule init_NoSectionError)
next
  assume h: "config ''nodes'' = Some ns \<and> nodes_ok ns \<and> config ''links'' = Some ls
        \<and> (\<forall>it\<in>set ls. link_item_ok float it) \<and> config ''switches'' = None"
  then have "processTopo float config
          = Inr (map host_call ns @ map switch_call (switch_items config) @ map (link_call float) ls)"
    using processTopo_ok [of config ns ls float] by blast
  with h show "processTopo float config = Inr (map host_call ns @ map (link_call float) ls)"
    by (simp add: switch_items_def)
qed

text \<open>
  The theorem at an empty file, at a file with a nodes section only, and at a file with
  nodes and links but no switches.
\<close>

theorem optional_switches_witness:
  "empty_config ''nodes'' = None
   \<and> processTopo whole_float empty_config = Inl (NoSectionError ''nodes'', [])
   \<and> init whole_float (\<lambda>file. empty_config) (\<lambda>t. parallel_links 1) id example_args None None False
       = (Inl (SystemExit 1, []) :: failure + (int, unit) minindn)
   \<and> nodes_only_config ''links'' = None
   \<and> processTopo whole_float nodes_only_config = Inl (NoSectionError ''links'', [])
   \<and> init whole_float (\<lambda>file. nodes_only_config) (\<lambda>t. parallel_links 1) id example_args None None False
       = (Inl (SystemExit 1, []) :: failure + (int, unit) minindn)
   \<and> no_switch_config ''switches'' = None
   \<and> processTopo whole_float no_switch_config
       = Inr [AddHost ''a'' Map.empty,
              AddHost ''b'' [''radius'' \<mapsto> ''1'', ''angle'' \<mapsto> ''2''],
              AddLink ''a'' ''b'' [''delay'' \<mapsto> PyStr ''10ms'', ''bw'' \<mapsto> PyInt 10, ''loss'' \<mapsto> PyFloat 2]]"
proof -
  let ?ns = "[(''a:'', Some ''_''), (''b:'', Some ''radius=1 angle=2'')]"
  let ?ls = "[(''a:b'', Some ''delay=10ms bw=10 loss=2'')]"
  have e: "empty_config ''nodes'' = None" by (simp add: empty_config_def)
  have o: "nodes_only_config ''nodes'' = Some ?ns" "nodes_only_config ''links'' = None"
    by (simp_all add: nodes_only_config_def)
  have s: "no_switch_config ''nodes'' = Some ?ns" "no_switch_config ''links'' = Some ?ls"
    "no_switch_config ''switches'' = None"
    by (simp_all add: no_switch_config_def)
  from optional_switches [where config = empty_config and float = whole_float
      and Mininet = "\<lambda>t. parallel_links 1" and abspath = id and a = example_args
      and topoFile_arg = None and 'w = unit] e
  have 1: "processTopo whole_float empty_config = Inl (NoSectionError ''nodes'', [])"
    "init whole_float (\<lambda>file. empty_config) (\<lambda>t. parallel_links 1) id example_args None None False
       = (Inl (SystemExit 1, []) :: failure + (int, unit) minindn)"
    by blast+
  from optional_switches [where config = nodes_only_config and float = whole_float and ns = ?ns
      and Mininet = "\<lambda>t. parallel_links 1" and abspath = id and a = example_args
      and topoFile_arg = None and 'w = unit] o example_nodes_ok
  have 2: "processTopo whole_float nodes_only_config = Inl (NoSectionError ''links'', [])"
    "init whole_float (\<lambda>file. nodes_only_config) (\<lambda>t. parallel_links 1) id example_args None None False
       = (Inl (SystemExit 1, []) :: failure + (int, unit) minindn)"
    by blast+
  from optional_switches [where config = no_switch_config and float = whole_float and ns = ?ns
      and ls = ?ls and 'w = unit] s example_nodes_ok example_links_ok
  have "processTopo whole_float no_switch_config
          = Inr (map host_call ?ns @ map (link_call whole_float) ?ls)"
    by blast
  then have 3: "processTopo whole_float no_switch_config
       = Inr [AddHost ''a'' Map.empty,
              AddHost ''b'' [''radius'' \<mapsto> ''1'', ''angle'' \<mapsto> ''2''],
              AddLink ''a'' ''b'' [''delay'' \<mapsto> PyStr ''10ms'', ''bw'' \<mapsto> PyInt 10, ''loss'' \<mapsto> PyFloat 2]]"
    by (simp only: example_calls append.simps)
  from e o(2) s(3) 1 2 3 show ?thesis by blast
qed

section \<open>Stopping and collecting results\<close>

text \<open>
  Claim C6.  Whenever \<^verbatim>\<open>stop\<close> reaches \<^verbatim>\<open>net.stop()\<close>, its trace begins with every registered
  cleanup callback, in registration order, followed by \<^verbatim>\<open>net.stop()\<close>, and neither occurs
  again afterwards.  When every registered callback returns, \<^verbatim>\<open>net.stop()\<close> is reached, on
  the world the callbacks have left in that order.
\<close>

theorem cleanups_before_net_stop:
  "(NetStop \<in> set (fst (stop os self w)) \<longrightarrow>
      (\<exists>rest. fst (stop os self w) = map Cleanup [0..<length (cleanups self)] @ NetStop # rest
         \<and> (\<forall>e\<in>set rest. \<not> lifecycle_event e)))
   \<and> ((\<forall>c\<in>set (cleanups self). returns c) \<longrightarrow>
      NetStop \<in> set (fst (stop os self w))
      \<and> (\<exists>r. run_cleanups (cleanups self) 0 [] w = (map Cleanup [0..<length (cleanups self)], Inr r)
             \<and> r = run_all (cleanups self) w))"
proof (intro conjI impI)
  assume ns: "NetStop \<in> set (fst (stop os self w))"
  let ?pre = "map Cleanup [0..<length (cleanups self)]"
  from stop_cases [of self w os]
  consider (raised) tr e where "run_cleanups (cleanups self) 0 [] w = (tr, Inl e)"
      "stop os self w = (tr, Inl e)"
    | (short) "fst (stop os self w) = ?pre @ [NetStop]"
    | (moved) dir files w3 where
      "stop os self w = move_files os files dir
          (?pre @ [NetStop, Info (moving_message dir), System (''mkdir -p '' @ dir)]) w3"
    by (cases "resultDir self") auto
  then show "\<exists>rest. fst (stop os self w) = ?pre @ NetStop # rest
         \<and> (\<forall>e\<in>set rest. \<not> lifecycle_event e)"
  proof cases
    case raised
    from run_cleanups_Inl [OF raised(1)] raised(2) ns show ?thesis by auto
  next
    case short
    then show ?thesis by simp
  next
    case moved
    from move_files_trace [of os files dir
        "?pre @ [NetStop, Info (moving_message dir), System (''mkdir -p '' @ dir)]" w3]
    obtain m where "fst (stop os self w)
        = (?pre @ [NetStop, Info (moving_message dir), System (''mkdir -p '' @ dir)])
            @ map (\<lambda>f. Move f dir) (take m files)"
      using moved by auto
    then have "fst (stop os self w) = ?pre @ NetStop #
        ([Info (moving_message dir), System (''mkdir -p '' @ dir)] @ map (\<lambda>f. Move f dir) (take m files))"
      by simp
    moreover have "\<forall>e\<in>set ([Info (moving_message dir), System (''mkdir -p '' @ dir)]
        @ map (\<lambda>f. Move f dir) (take m files)). \<not> lifecycle_event e"
      by auto
    ultimately show ?thesis by blast
  qed
next
  assume r: "\<forall>c\<in>set (cleanups self). returns c"
  from run_cleanups_returns [OF r, of 0 "[]" w]
  have rc: "run_cleanups (cleanups self) 0 [] w
              = (map Cleanup [0..<length (cleanups self)], Inr (run_all (cleanups self) w))"
    by simp
  then show "\<exists>r. run_cleanups (cleanups self) 0 [] w = (map Cleanup [0..<length (cleanups self)], Inr r)
             \<and> r = run_all (cleanups self) w"
    by simp
  from stop_cases [of self w os] rc
  consider (short) "fst (stop os self w) = map Cleanup [0..<length (cleanups self)] @ [NetStop]"
    | (moved) dir files w3 where
      "stop os self w = move_files os files dir
          (map Cleanup [0..<length (cleanups self)]
             @ [NetStop, Info (moving_message dir), System (''mkdir -p '' @ dir)]) w3"
    by (cases "resultDir self") auto
  then show "NetStop \<in> set (fst (stop os self w))"
  proof cases
    case short
    then show ?thesis by simp
  next
    case moved
    from move_files_trace [of os files dir
        "map Cleanup [0..<length (cleanups self)]
           @ [NetStop, Info (moving_message dir), System (''mkdir -p '' @ dir)]" w3] moved
    show ?thesis by auto
  qed
qed

text \<open>The theorem at two registered callbacks that log their names.\<close>

theorem cleanups_before_net_stop_witness:
  "NetStop \<in> set (fst (stop example_os (example_self None) []))
   \<and> take 3 (fst (stop example_os (example_self None) [])) = [Cleanup 0, Cleanup 1, NetStop]
   \<and> snd (stop example_os (example_self None) []) = Inr [''nfd cleanup'', ''nlsr cleanup'', ''net.stop'']"
proof -
  let ?s = "stop example_os (example_self None) []"
  from cleanups_before_net_stop [of example_os "example_self None" "[]"] example_returns(1)
  have n: "NetStop \<in> set (fst ?s)" by blast
  with cleanups_before_net_stop [of example_os "example_self None" "[]"]
  obtain rest where "fst ?s = map Cleanup [0..<length (cleanups (example_self None))] @ NetStop # rest"
    by blast
  then have t: "take 3 (fst ?s) = [Cleanup 0, Cleanup 1, NetStop]"
    by (simp add: example_self_def upt_2)
  have "snd ?s = Inr [''nfd cleanup'', ''nlsr cleanup'', ''net.stop'']"
    by (simp add: stop_def example_self_def example_os_def log_world_def)
  with n t show ?thesis by blast
qed

text \<open>
  Claim C7.  With \<^verbatim>\<open>resultDir\<close> \<open>None\<close>, \<^verbatim>\<open>stop\<close> runs no shell command and moves no file, and
  when the callbacks and \<^verbatim>\<open>net.stop()\<close> return it ends in the world \<^verbatim>\<open>net.stop()\<close> left.  With
  \<^verbatim>\<open>resultDir\<close> a directory, when the callbacks, \<^verbatim>\<open>net.stop()\<close> and the moves return, \<^verbatim>\<open>stop\<close>
  runs \<^verbatim>\<open>mkdir -p\<close> on it and then moves into it every file that \<^verbatim>\<open>glob\<close> finds for the
  pattern \<^verbatim>\<open>workDir/*\<close>, in that order, and nothing else.
\<close>

theorem results_moved_iff_configured:
  "(resultDir self = None \<longrightarrow>
      (\<forall>e\<in>set (fst (stop os self w)). \<not> file_event e)
      \<and> ((\<forall>c\<in>set (cleanups self). returns c) \<and> returns (net_stop os) \<longrightarrow>
           stop os self w =
             (map Cleanup [0..<length (cleanups self)] @ [NetStop],
              Inr (projr (net_stop os (run_all (cleanups self) w))))))
   \<and> (resultDir self = Some dir \<and> (\<forall>c\<in>set (cleanups self). returns c) \<and> returns (net_stop os)
        \<and> (\<forall>file. returns (shutil_move os file dir)) \<longrightarrow>
      (let w2 = projr (net_stop os (run_all (cleanups self) w));
           w3 = os_system os (''mkdir -p '' @ dir) w2;
           files = glob_glob os (workDir self @ ''/*'') w3
       in stop os self w =
            (map Cleanup [0..<length (cleanups self)]
               @ [NetStop, Info (moving_message dir), System (''mkdir -p '' @ dir)]
               @ map (\<lambda>f. Move f dir) files,
             Inr (run_all (map (\<lambda>f. shutil_move os f dir) files) w3))))"
proof (intro conjI impI)
  assume none: "resultDir self = None"
  from stop_cases [of self w os] none
  consider (raised) tr e where "run_cleanups (cleanups self) 0 [] w = (tr, Inl e)"
      "stop os self w = (tr, Inl e)"
    | (short) "fst (stop os self w) = map Cleanup [0..<length (cleanups self)] @ [NetStop]"
    by auto
  then show "\<forall>e\<in>set (fst (stop os self w)). \<not> file_event e"
  proof cases
    case raised
    from run_cleanups_Inl [OF raised(1)] raised(2) show ?thesis by auto
  next
    case short
    then show ?thesis by auto
  qed
next
  assume none: "resultDir self = None"
    and r: "(\<forall>c\<in>set (cleanups self). returns c) \<and> returns (net_stop os)"
  from r have rc: "run_cleanups (cleanups self) 0 [] w
              = (map Cleanup [0..<length (cleanups self)], Inr (run_all (cleanups self) w))"
    using run_cleanups_returns [of "cleanups self" 0 "[]" w] by simp
  from r have "returns (net_stop os)" by simp
  then obtain w2 where w2: "net_stop os (run_all (cleanups self) w) = Inr w2"
    unfolding returns_def by blast
  show "stop os self w =
             (map Cleanup [0..<length (cleanups self)] @ [NetStop],
              Inr (projr (net_stop os (run_all (cleanups self) w))))"
    using rc w2 none by (simp add: stop_def)
next
  assume h: "resultDir self = Some dir \<and> (\<forall>c\<in>set (cleanups self). returns c) \<and> returns (net_stop os)
        \<and> (\<forall>file. returns (shutil_move os file dir))"
  from h have rc: "run_cleanups (cleanups self) 0 [] w
              = (map Cleanup [0..<length (cleanups self)], Inr (run_all (cleanups self) w))"
    using run_cleanups_returns [of "cleanups self" 0 "[]" w] by simp
  from h have "returns (net_stop os)" by simp
  then obtain w2 where w2: "net_stop os (run_all (cleanups self) w) = Inr w2"
    unfolding returns_def by blast
  from h have mv: "\<forall>file. returns (shutil_move os file dir)" by simp
  show "let w2 = projr (net_stop os (run_all (cleanups self) w));
           w3 = os_system os (''mkdir -p '' @ dir) w2;
           files = glob_glob os (workDir self @ ''/*'') w3
       in stop os self w =
            (map Cleanup [0..<length (cleanups self)]
               @ [NetStop, Info (moving_message dir), System (''mkdir -p '' @ dir)]
               @ map (\<lambda>f. Move f dir) files,
             Inr (run_all (map (\<lambda>f. shutil_move os f dir) files) w3))"
    using rc w2 h by (simp add: stop_def Let_def move_files_returns [OF mv])
qed

text \<open>The theorem at the example environment, without and with a result directory.\<close>

theorem results_moved_iff_configured_witness:
  "stop example_os (example_self None) []
     = ([Cleanup 0, Cleanup 1, NetStop], Inr [''nfd cleanup'', ''nlsr cleanup'', ''net.stop''])
   \<and> stop example_os (example_self (Some ''/results'')) []
     = ([Cleanup 0, Cleanup 1, NetStop, Info (moving_message ''/results''),
         System ''mkdir -p /results'',
         Move ''/tmp/minindn/a'' ''/results'', Move ''/tmp/minindn/b'' ''/results''],
        Inr [''nfd cleanup'', ''nlsr cleanup'', ''net.stop'', ''mkdir -p /results'',
             ''move /tmp/minindn/a /results'', ''move /tmp/minindn/b /results''])"
proof -
  have n: "resultDir (example_self None) = None"
    and s: "resultDir (example_self (Some ''/results'')) = Some ''/results''"
    by (simp_all add: example_self_def)
  from results_moved_iff_configured [where self = "example_self None" and os = example_os and w = "[]"] n example_returns(1,2)
  have "stop example_os (example_self None) [] =
             (map Cleanup [0..<length (cleanups (example_self None))] @ [NetStop],
              Inr (projr (net_stop example_os (run_all (cleanups (example_self None)) []))))"
    by blast
  then have 1: "stop example_os (example_self None) []
     = ([Cleanup 0, Cleanup 1, NetStop], Inr [''nfd cleanup'', ''nlsr cleanup'', ''net.stop''])"
    by (simp add: example_self_def example_os_def log_world_def run_all_def upt_2)
  from results_moved_iff_configured [where self = "example_self (Some ''/results'')" and dir = "''/results''"
      and os = example_os and w = "[]"]
    s example_returns
  have "let w2 = projr (net_stop example_os (run_all (cleanups (example_self (Some ''/results''))) []));
           w3 = os_system example_os (''mkdir -p '' @ ''/results'') w2;
           files = glob_glob example_os (workDir (example_self (Some ''/results'')) @ ''/*'') w3
       in stop example_os (example_self (Some ''/results'')) [] =
            (map Cleanup [0..<length (cleanups (example_self (Some ''/results'')))]
               @ [NetStop, Info (moving_message ''/results''), System (''mkdir -p '' @ ''/results'')]
               @ map (\<lambda>f. Move f ''/results'') files,
             Inr (run_all (map (\<lambda>f. shutil_move example_os f ''/results'') files) w3))"
    by blast
  then have 2: "stop example_os (example_self (Some ''/results'')) []
     = ([Cleanup 0, Cleanup 1, NetStop, Info (moving_message ''/results''),
         System ''mkdir -p /results'',
         Move ''/tmp/minindn/a'' ''/results'', Move ''/tmp/minindn/b'' ''/results''],
        Inr [''nfd cleanup'', ''nlsr cleanup'', ''net.stop'', ''mkdir -p /results'',
             ''move /tmp/minindn/a /results'', ''move /tmp/minindn/b /results''])"
    by (simp add: example_self_def example_os_def log_world_def run_all_def upt_2 Let_def)
  from 1 2 show ?thesis by blast
qed

end
